theory Spec2Isabelle
  imports Main "HOL-Library.Sublist"
begin

section \<open>Canvas documents and operations (types.ts)\<close>

text \<open>
  The canvas synchronisation service of the plugin keeps groups of canvas files in step:
  a structural edit seen on one file of a group is replayed on every other file of the
  group. This theory embeds the service (\<^verbatim>\<open>CanvasSyncService\<close>) and the data it works
  on. Strings are lists of characters, JavaScript objects used as dictionaries are maps,
  arrays are lists.
\<close>

datatype CanvasNodeType = Text | File | Link | Group

text \<open>
  \<^verbatim>\<open>CanvasNodeData\<close>: the optional fields are options. Coordinates and sizes are only
  carried around by the service, never computed with.
\<close>

record CanvasNodeData =
  n_id :: string
  n_type :: CanvasNodeType
  n_text :: "string option"
  n_file :: "string option"
  n_url :: "string option"
  n_subtype :: "string option"
  n_width :: "int option"
  n_height :: "int option"
  n_x :: int
  n_y :: int

text \<open>
  An edge is \<^verbatim>\<open>any\<close> in the source; the service reads \<^verbatim>\<open>fromNode\<close> and \<^verbatim>\<open>toNode\<close>
  only. Everything else an edge carries is kept, uninterpreted, in \<open>e_rest\<close>.
\<close>

record CanvasEdge =
  fromNode :: string
  toNode :: string
  e_rest :: string

record CanvasData =
  nodes :: "string \<rightharpoonup> CanvasNodeData"
  edges :: "CanvasEdge list"

text \<open>
  \<^verbatim>\<open>Operation\<close>: the \<^verbatim>\<open>type\<close> tag and the \<^verbatim>\<open>data\<close> payload of the source are one
  tagged value here, as the listener builds them.
\<close>

datatype OperationData =
    CreateNode CanvasNodeData
  | DeleteNode string
  | UpdateNodeText string string

record Operation =
  opData :: OperationData
  sourceFile :: string

record CanvasGroup =
  files :: "string list"
  lastSync :: nat

section \<open>The three handlers\<close>

text \<open>
  \<^verbatim>\<open>canvasData.nodes[nodeData.id] = nodeData\<close>. The node mapping is a JavaScript object,
  and the map holds its own keys, which are what \<^verbatim>\<open>JSON.stringify\<close> writes. Assigning to
  the key \<^verbatim>\<open>__proto__\<close> of an object that has no own key of that name calls the setter
  inherited from \<^verbatim>\<open>Object.prototype\<close>: the object gets a new prototype and no new key,
  so the document stays as it was. Every other assignment stores the node under its key.
\<close>

definition handleCreateNode :: "CanvasData \<Rightarrow> CanvasNodeData \<Rightarrow> CanvasData" where
  "handleCreateNode canvasData nodeData =
     (if n_id nodeData = ''__proto__'' \<and> nodes canvasData ''__proto__'' = None then canvasData
      else canvasData\<lparr>nodes := (nodes canvasData)(n_id nodeData \<mapsto> nodeData)\<rparr>)"

definition handleDeleteNode :: "CanvasData \<Rightarrow> string \<Rightarrow> CanvasData" where
  "handleDeleteNode canvasData nodeId =
     canvasData\<lparr>nodes := (nodes canvasData)(nodeId := None),
                edges := filter (\<lambda>edge. fromNode edge \<noteq> nodeId \<and> toNode edge \<noteq> nodeId)
                           (edges canvasData)\<rparr>"

definition handleUpdateNodeText :: "CanvasData \<Rightarrow> string \<Rightarrow> string \<Rightarrow> CanvasData" where
  "handleUpdateNodeText canvasData nodeId newText =
     (case nodes canvasData nodeId of
        Some node \<Rightarrow>
          canvasData\<lparr>nodes := (nodes canvasData)(nodeId \<mapsto> node\<lparr>n_text := Some newText\<rparr>)\<rparr>
      | None \<Rightarrow> canvasData)"

text \<open>The \<^verbatim>\<open>switch\<close> of \<^verbatim>\<open>executeOperation\<close>.\<close>

fun applyOperation :: "OperationData \<Rightarrow> CanvasData \<Rightarrow> CanvasData" where
  "applyOperation (CreateNode nodeData) canvasData = handleCreateNode canvasData nodeData"
| "applyOperation (DeleteNode nodeId) canvasData = handleDeleteNode canvasData nodeId"
| "applyOperation (UpdateNodeText nodeId newText) canvasData =
     handleUpdateNodeText canvasData nodeId newText"

section \<open>JavaScript strings, numbers and results\<close>

text \<open>
  A character of the model stands for one code unit of a JavaScript string. Among them
  the decimal digits are what \<^verbatim>\<open>\d\<close> matches, and line feed and carriage return are the
  line terminators that \<^verbatim>\<open>.\<close> does not match.
\<close>

definition isDigit :: "char \<Rightarrow> bool" where
  "isDigit c = (c \<in> set ''0123456789'')"

definition isLineTerminator :: "char \<Rightarrow> bool" where
  "isLineTerminator c = (c = CHR 0x0A \<or> c = CHR 0x0D)"

text \<open>
  \<open>splitFirst pat s\<close> finds the first occurrence of \<open>pat\<close> in \<open>s\<close> and returns what
  stands before and after it.
\<close>

fun splitFirst :: "string \<Rightarrow> string \<Rightarrow> (string \<times> string) option" where
  "splitFirst pat [] = (if pat = [] then Some ([], []) else None)"
| "splitFirst pat (c # cs) =
     (if prefix pat (c # cs) then Some ([], drop (length pat) (c # cs))
      else map_option (\<lambda>(front, back). (c # front, back)) (splitFirst pat cs))"

text \<open>
  The replacement text of \<^verbatim>\<open>String.prototype.replace\<close> is not taken literally: \<^verbatim>\<open>$$\<close>
  stands for a dollar sign, \<^verbatim>\<open>$&\<close> for the matched text, \<^verbatim>\<open>$`\<close> for the text before the
  match and \<^verbatim>\<open>$'\<close> for the text after it. With a string pattern there are no capture
  groups, so every other use of the dollar sign stays as it is.
\<close>

fun getSubstitution :: "string \<Rightarrow> string \<Rightarrow> string \<Rightarrow> string \<Rightarrow> string" where
  "getSubstitution matched front back [] = []"
| "getSubstitution matched front back [c] = [c]"
| "getSubstitution matched front back (c # d # r) =
     (if c \<noteq> CHR ''$'' then c # getSubstitution matched front back (d # r)
      else if d = CHR ''$'' then CHR ''$'' # getSubstitution matched front back r
      else if d = CHR ''&'' then matched @ getSubstitution matched front back r
      else if d = CHR 0x60 then front @ getSubstitution matched front back r
      else if d = CHR 0x27 then back @ getSubstitution matched front back r
      else c # getSubstitution matched front back (d # r))"

text \<open>\<^verbatim>\<open>s.replace(pat, rep)\<close> for strings \<open>pat\<close> and \<open>rep\<close>: the first occurrence only.\<close>

definition replace :: "string \<Rightarrow> string \<Rightarrow> string \<Rightarrow> string" where
  "replace s pat rep =
     (case splitFirst pat s of
        None \<Rightarrow> s
      | Some (front, back) \<Rightarrow> front @ getSubstitution pat front back rep @ back)"

text \<open>
  The name of a file is the last component of its path: \<^verbatim>\<open>TFile.name\<close>, and
  \<^verbatim>\<open>filePath.split('/').pop()\<close>.
\<close>

definition fileName :: "string \<Rightarrow> string" where
  "fileName filePath = rev (takeWhile (\<lambda>c. c \<noteq> CHR ''/'') (rev filePath))"

datatype error =
    NotFound
  | ReadError
  | JsonSyntaxError
  | RegExpSyntaxError
  | CreateError

text \<open>
  A step of the naming algorithm returns, throws, or leaves what the embedding computes
  by itself (\<open>Beyond\<close>): a number too long for a JavaScript double to hold exactly, or
  a regular expression built from a prefix with metacharacters other than \<^verbatim>\<open>+\<close>.
  What the JavaScript engine does there is left to the host, see \<open>versionText\<close>.
\<close>

datatype 'a js = Returns 'a | Throws error | Beyond

fun bindJs :: "'a js \<Rightarrow> ('a \<Rightarrow> 'b js) \<Rightarrow> 'b js" where
  "bindJs (Returns x) f = f x"
| "bindJs (Throws e) f = Throws e"
| "bindJs Beyond f = Beyond"

definition digitValue :: "char \<Rightarrow> nat" where
  "digitValue c = of_char c - 48"

definition decimal :: "string \<Rightarrow> nat" where
  "decimal ds = foldl (\<lambda>a c. 10 * a + digitValue c) 0 ds"

text \<open>
  \<^verbatim>\<open>parseInt\<close> on a string of decimal digits. Numbers are doubles in JavaScript: a
  number of at most fifteen digits, its successor and its decimal rendering are exact
  (they stay below \<open>2 ^ 53\<close>), and the embedding goes no further.
\<close>

definition parseInt :: "string \<Rightarrow> nat js" where
  "parseInt ds = (if length ds \<le> 15 then Returns (decimal ds) else Beyond)"

definition digitChar :: "nat \<Rightarrow> char" where
  "digitChar d = ''0123456789'' ! d"

function showNat :: "nat \<Rightarrow> string" where
  "showNat n = (if n < 10 then [digitChar n] else showNat (n div 10) @ [digitChar (n mod 10)])"
  by pat_completeness auto
termination
  by (relation "measure id") auto

declare showNat.simps [simp del]

section \<open>The two regular expressions of the naming algorithm\<close>

text \<open>
  \<^verbatim>\<open>baseName.match(/(.+)C(\d+)$/)\<close>. The digits of the second group run to the end of
  the string and the character before them is \<^verbatim>\<open>C\<close>, so the second group is the longest
  run of digits at the end. The first group is what stands before that \<^verbatim>\<open>C\<close>, from the
  last line terminator on (the match is not anchored at the start, and \<^verbatim>\<open>.\<close> matches no
  line terminator); it must not be empty. The result is the pair of the groups.
\<close>

definition matchVersioned :: "string \<Rightarrow> (string \<times> string) option" where
  "matchVersioned baseName =
     (let r = rev baseName;
          ds = takeWhile isDigit r
      in case dropWhile isDigit r of
           [] \<Rightarrow> None
         | c # pre \<Rightarrow>
             if ds = [] \<or> c \<noteq> CHR ''C'' then None
             else let p = takeWhile (\<lambda>c. \<not> isLineTerminator c) pre
                  in if p = [] then None else Some (rev p, rev ds))"

text \<open>
  \<^verbatim>\<open>new RegExp(`^${baseNameWithoutNumber}C(\\d+)\\.canvas$`)\<close>: the prefix is pasted into
  the pattern as it is, so its characters are read as regular-expression syntax. A
  character outside the syntax characters \<^verbatim>\<open>^ $ \ . * + ? ( ) [ ] { } |\<close> matches itself.
  The embedding reads one syntax character, the quantifier \<^verbatim>\<open>+\<close>: after a character it
  means one or more, at the start of the prefix or after another \<^verbatim>\<open>+\<close> there is
  nothing to repeat and the constructor throws a syntax error. A prefix with any other
  syntax character is \<open>Beyond\<close>.
\<close>

definition regexPlain :: "char \<Rightarrow> bool" where
  "regexPlain c = (c \<notin> set ''^$.*+?()[]{}|'' \<and> c \<noteq> CHR 0x5C)"

type_synonym rxItem = "char \<times> bool"

fun parseItems :: "string \<Rightarrow> rxItem list option" where
  "parseItems [] = Some []"
| "parseItems [c] = (if c = CHR ''+'' then None else Some [(c, False)])"
| "parseItems (c # d # r) =
     (if c = CHR ''+'' then None
      else if d = CHR ''+'' then map_option ((#) (c, True)) (parseItems r)
      else map_option ((#) (c, False)) (parseItems (d # r)))"

definition compileVersionPattern :: "string \<Rightarrow> rxItem list js" where
  "compileVersionPattern baseNameWithoutNumber =
     (if \<exists>c \<in> set baseNameWithoutNumber. \<not> regexPlain c \<and> c \<noteq> CHR ''+'' then Beyond
      else case parseItems baseNameWithoutNumber of
             None \<Rightarrow> Throws RegExpSyntaxError
           | Some items \<Rightarrow> Returns items)"

text \<open>Whether the items match the whole of a string, trying every length of a repetition.\<close>

fun matchItems :: "rxItem list \<Rightarrow> string \<Rightarrow> bool" where
  "matchItems [] s = (s = [])"
| "matchItems ((c, rep) # items) [] = False"
| "matchItems ((c, False) # items) (d # s) = (d = c \<and> matchItems items s)"
| "matchItems ((c, True) # items) (d # s) =
     (d = c \<and> (matchItems ((c, True) # items) s \<or> matchItems items s))"

text \<open>
  \<^verbatim>\<open>fileName.match(versionPattern)\<close>, giving the first group (the digits) of a match. The
  pattern is anchored at both ends: the name ends in \<^verbatim>\<open>.canvas\<close>, before it stands the
  longest run of digits, before them a \<^verbatim>\<open>C\<close>, and the prefix items match all the rest.
\<close>

definition execVersionPattern :: "rxItem list \<Rightarrow> string \<Rightarrow> string option" where
  "execVersionPattern items name =
     (if \<not> suffix ''.canvas'' name then None
      else let r = rev (take (length name - 7) name);
               ds = takeWhile isDigit r
           in case dropWhile isDigit r of
                [] \<Rightarrow> None
              | c # pre \<Rightarrow>
                  if ds = [] \<or> c \<noteq> CHR ''C'' then None
                  else if matchItems items (rev pre) then Some (rev ds) else None)"

section \<open>The vault\<close>

text \<open>
  The vault is the file store of the host application, which the service reaches through
  \<^verbatim>\<open>getAbstractFileByPath\<close>, \<^verbatim>\<open>read\<close>, \<^verbatim>\<open>create\<close> and \<^verbatim>\<open>modify\<close>. A path holds a
  file with its content, or a folder, or nothing. Reading, creating and modifying can
  fail for reasons of the host's own, which the three predicates stand for. The journal
  lists the calls to \<^verbatim>\<open>read\<close>, \<^verbatim>\<open>create\<close> and \<^verbatim>\<open>modify\<close> in the order they were made,
  failed ones too.
\<close>

datatype TAbstractFile = TFile string | TFolder

datatype VaultCall =
    CallRead string
  | CallCreate string string
  | CallModify string string

record Vault =
  entries :: "string \<rightharpoonup> TAbstractFile"
  readFails :: "string \<Rightarrow> bool"
  createFails :: "string \<Rightarrow> bool"
  modifyFails :: "string \<Rightarrow> bool"
  journal :: "VaultCall list"

text \<open>\<^verbatim>\<open>sourceFile instanceof TFile\<close>, for the result of \<^verbatim>\<open>getAbstractFileByPath\<close>.\<close>

definition isTFile :: "Vault \<Rightarrow> string \<Rightarrow> bool" where
  "isTFile v filePath = (case entries v filePath of Some (TFile content) \<Rightarrow> True | _ \<Rightarrow> False)"

text \<open>\<^verbatim>\<open>vault.read(file)\<close>: the content, or \<open>None\<close> when the call throws.\<close>

definition vault_read :: "Vault \<Rightarrow> string \<Rightarrow> string option \<times> Vault" where
  "vault_read v filePath =
     (let v' = v\<lparr>journal := journal v @ [CallRead filePath]\<rparr>
      in case entries v filePath of
           Some (TFile content) \<Rightarrow> if readFails v filePath then (None, v') else (Some content, v')
         | _ \<Rightarrow> (None, v'))"

text \<open>
  \<^verbatim>\<open>vault.create(path, data)\<close>: throws when the path is taken already, and writes
  nothing then.
\<close>

definition vault_create :: "Vault \<Rightarrow> string \<Rightarrow> string \<Rightarrow> bool \<times> Vault" where
  "vault_create v filePath content =
     (let v' = v\<lparr>journal := journal v @ [CallCreate filePath content]\<rparr>
      in if entries v filePath \<noteq> None \<or> createFails v filePath then (False, v')
         else (True, v'\<lparr>entries := (entries v)(filePath \<mapsto> TFile content)\<rparr>))"

text \<open>\<^verbatim>\<open>vault.modify(file, data)\<close>: replaces the content of a file.\<close>

definition vault_modify :: "Vault \<Rightarrow> string \<Rightarrow> string \<Rightarrow> bool \<times> Vault" where
  "vault_modify v filePath content =
     (let v' = v\<lparr>journal := journal v @ [CallModify filePath content]\<rparr>
      in if isTFile v filePath \<and> \<not> modifyFails v filePath
         then (True, v'\<lparr>entries := (entries v)(filePath \<mapsto> TFile content)\<rparr>)
         else (False, v'))"

text \<open>
  \<^verbatim>\<open>JSON.parse\<close> and \<^verbatim>\<open>JSON.stringify\<close> belong to the host as well. \<open>jsonValid\<close> says
  that \<^verbatim>\<open>JSON.parse\<close> returns; \<open>parseCanvas\<close> gives the parsed value where it is a
  \<^verbatim>\<open>CanvasData\<close>, and \<open>None\<close> where parsing throws or the value has no node mapping,
  which makes each handler throw.

  \<open>versionText\<close> stands for the JavaScript engine where the embedding of the naming
  algorithm stops (\<open>Beyond\<close>). From the files of the group of the source (if it has
  one), the prefix and the digits of the base name it gives the text of the new version
  number as the engine renders it, or the error that the \<^verbatim>\<open>RegExp\<close> constructor throws.
\<close>

record Host =
  jsonValid :: "string \<Rightarrow> bool"
  parseCanvas :: "string \<Rightarrow> CanvasData option"
  stringify :: "CanvasData \<Rightarrow> string"
  versionText :: "string list option \<Rightarrow> string \<Rightarrow> string \<Rightarrow> error + string"

section \<open>The service\<close>

record Service =
  canvasGroups :: "CanvasGroup list"
  vault :: Vault
  processingOperations :: bool
  operationQueue :: "Operation list"

text \<open>
  \<^verbatim>\<open>findGroupForFile\<close> returns the first group that lists the path. The source hands out
  the group object itself, which callers then mutate; here it is the position of the
  group in the list.
\<close>

fun findGroupForFile :: "CanvasGroup list \<Rightarrow> string \<Rightarrow> nat option" where
  "findGroupForFile [] filePath = None"
| "findGroupForFile (g # gs) filePath =
     (if filePath \<in> set (files g) then Some 0
      else map_option Suc (findGroupForFile gs filePath))"

definition updateCanvasGroup :: "nat \<Rightarrow> string \<Rightarrow> string \<Rightarrow> Service \<Rightarrow> Service" where
  "updateCanvasGroup now sourceFilePath newFilePath s =
     (case findGroupForFile (canvasGroups s) sourceFilePath of
        Some i \<Rightarrow>
          (let g = canvasGroups s ! i
           in if newFilePath \<in> set (files g) then s
              else s\<lparr>canvasGroups :=
                       (canvasGroups s)[i := g\<lparr>files := files g @ [newFilePath], lastSync := now\<rparr>]\<rparr>)
      | None \<Rightarrow>
          s\<lparr>canvasGroups :=
              canvasGroups s @ [\<lparr>files = [sourceFilePath, newFilePath], lastSync = now\<rparr>]\<rparr>)"

section \<open>Deriving a new view\<close>

text \<open>The loop over the files of the group, which looks for the highest version.\<close>

fun scanVersions :: "rxItem list \<Rightarrow> string list \<Rightarrow> nat \<Rightarrow> nat js" where
  "scanVersions versionPattern [] maxVersion = Returns maxVersion"
| "scanVersions versionPattern (filePath # rest) maxVersion =
     (case execVersionPattern versionPattern (fileName filePath) of
        None \<Rightarrow> scanVersions versionPattern rest maxVersion
      | Some ds \<Rightarrow>
          bindJs (parseInt ds)
            (\<lambda>fileVersion. scanVersions versionPattern rest (max maxVersion fileVersion)))"

text \<open>The version of the new file, for a source whose base name is versioned.\<close>

definition nextVersion :: "CanvasGroup list \<Rightarrow> string \<Rightarrow> string \<Rightarrow> string \<Rightarrow> nat js" where
  "nextVersion groups sourceFilePath baseNameWithoutNumber digits =
     bindJs (parseInt digits) (\<lambda>version.
       case findGroupForFile groups sourceFilePath of
         Some i \<Rightarrow>
           bindJs (compileVersionPattern baseNameWithoutNumber) (\<lambda>versionPattern.
             bindJs (scanVersions versionPattern (files (groups ! i)) version) (\<lambda>maxVersion.
               Returns (maxVersion + 1)))
       | None \<Rightarrow> Returns (version + 1))"

text \<open>The text of the version, as it goes into the name of the new file.\<close>

definition newVersionText ::
    "Host \<Rightarrow> CanvasGroup list \<Rightarrow> string \<Rightarrow> string \<Rightarrow> string \<Rightarrow> error + string" where
  "newVersionText host groups sourceFilePath baseNameWithoutNumber digits =
     (case nextVersion groups sourceFilePath baseNameWithoutNumber digits of
        Returns version \<Rightarrow> Inr (showNat version)
      | Throws e \<Rightarrow> Inl e
      | Beyond \<Rightarrow>
          versionText host
            (map_option (\<lambda>i. files (groups ! i)) (findGroupForFile groups sourceFilePath))
            baseNameWithoutNumber digits)"

text \<open>The name of the new file, from the name of the source file.\<close>

definition newFileNameFor :: "Host \<Rightarrow> CanvasGroup list \<Rightarrow> string \<Rightarrow> error + string" where
  "newFileNameFor host groups sourceFilePath =
     (let baseName = replace (fileName sourceFilePath) ''.canvas'' []
      in case matchVersioned baseName of
           Some (baseNameWithoutNumber, digits) \<Rightarrow>
             (case newVersionText host groups sourceFilePath baseNameWithoutNumber digits of
                Inl e \<Rightarrow> Inl e
              | Inr version \<Rightarrow> Inr (baseNameWithoutNumber @ ''C'' @ version @ ''.canvas''))
         | None \<Rightarrow> Inr (baseName @ ''C1.canvas''))"

text \<open>
  \<^verbatim>\<open>createNewCanvasView\<close>. The result is the path of the new file, or the error that made
  the method return \<^verbatim>\<open>null\<close>, together with the state it leaves.
\<close>

definition createNewCanvasView ::
    "Host \<Rightarrow> nat \<Rightarrow> string \<Rightarrow> Service \<Rightarrow> (error + string) \<times> Service" where
  "createNewCanvasView host now sourceFilePath s =
     (if \<not> isTFile (vault s) sourceFilePath then (Inl NotFound, s)
      else case vault_read (vault s) sourceFilePath of
        (None, v1) \<Rightarrow> (Inl ReadError, s\<lparr>vault := v1\<rparr>)
      | (Some sourceContent, v1) \<Rightarrow>
          if \<not> jsonValid host sourceContent then (Inl JsonSyntaxError, s\<lparr>vault := v1\<rparr>)
          else case newFileNameFor host (canvasGroups s) sourceFilePath of
            Inl e \<Rightarrow> (Inl e, s\<lparr>vault := v1\<rparr>)
          | Inr newFileName \<Rightarrow>
              (let newFilePath = replace sourceFilePath (fileName sourceFilePath) newFileName
               in case vault_create v1 newFilePath sourceContent of
                    (False, v2) \<Rightarrow> (Inl CreateError, s\<lparr>vault := v2\<rparr>)
                  | (True, v2) \<Rightarrow>
                      (Inr newFilePath,
                       updateCanvasGroup now sourceFilePath newFilePath (s\<lparr>vault := v2\<rparr>))))"

section \<open>Propagating an operation\<close>

text \<open>
  One round of the loop over the files of the group in \<^verbatim>\<open>executeOperation\<close>: the source
  file is skipped, so is a path that is no file; whatever is thrown while the target is
  read, parsed, changed and written is caught, and the round ends there.
\<close>

definition syncTarget :: "Host \<Rightarrow> Operation \<Rightarrow> Vault \<Rightarrow> string \<Rightarrow> Vault" where
  "syncTarget host operation v filePath =
     (if filePath = sourceFile operation then v
      else if \<not> isTFile v filePath then v
      else case vault_read v filePath of
             (None, v1) \<Rightarrow> v1
           | (Some content, v1) \<Rightarrow>
               (case parseCanvas host content of
                  None \<Rightarrow> v1
                | Some canvasData \<Rightarrow>
                    snd (vault_modify v1 filePath
                           (stringify host (applyOperation (opData operation) canvasData)))))"

definition executeOperation :: "Host \<Rightarrow> nat \<Rightarrow> Operation \<Rightarrow> Service \<Rightarrow> Service" where
  "executeOperation host now operation s =
     (case findGroupForFile (canvasGroups s) (sourceFile operation) of
        None \<Rightarrow> s
      | Some i \<Rightarrow>
          (let g = canvasGroups s ! i;
               s1 = s\<lparr>canvasGroups := (canvasGroups s)[i := g\<lparr>lastSync := now\<rparr>]\<rparr>
           in s1\<lparr>vault := foldl (syncTarget host operation) (vault s1) (files g)\<rparr>))"

text \<open>
  The \<^verbatim>\<open>while\<close> loop of \<^verbatim>\<open>processOperation\<close>, run with no other call in between;
  \<open>clock k\<close> is the time that the \<open>k\<close>-th round reads.
\<close>

function drainQueue :: "Host \<Rightarrow> (nat \<Rightarrow> nat) \<Rightarrow> nat \<Rightarrow> Service \<Rightarrow> Service" where
  "drainQueue host clock k s =
     (case operationQueue s of
        [] \<Rightarrow> s
      | op # rest \<Rightarrow>
          drainQueue host clock (Suc k)
            (executeOperation host (clock k) op (s\<lparr>operationQueue := rest\<rparr>)))"
  by pat_completeness auto
termination
  by (relation "measure (\<lambda>(host, clock, k, s). length (operationQueue s))")
     (auto simp: executeOperation_def Let_def split: option.splits)

declare drainQueue.simps [simp del]

definition processOperation ::
    "Host \<Rightarrow> (nat \<Rightarrow> nat) \<Rightarrow> Operation \<Rightarrow> Service \<Rightarrow> Service" where
  "processOperation host clock operation s =
     (let s1 = s\<lparr>operationQueue := operationQueue s @ [operation]\<rparr>
      in if processingOperations s1 then s1
         else (drainQueue host clock 0 (s1\<lparr>processingOperations := True\<rparr>))
                \<lparr>processingOperations := False\<rparr>)"

text \<open>
  The operations of a list executed one after the other, the \<open>k\<close>-th of them at the
  time \<open>clock k\<close>: what the loop is meant to do with its queue.
\<close>

fun executeAll ::
    "Host \<Rightarrow> (nat \<Rightarrow> nat) \<Rightarrow> nat \<Rightarrow> Operation list \<Rightarrow> Service \<Rightarrow> Service" where
  "executeAll host clock k [] s = s"
| "executeAll host clock k (op # ops) s =
     executeAll host clock (Suc k) ops (executeOperation host (clock k) op s)"

section \<open>Calls that overlap\<close>

text \<open>
  \<^verbatim>\<open>processOperation\<close> is asynchronous: while one call waits for the vault, another call
  may run up to its own next wait. An activation of the \<^verbatim>\<open>while\<close> loop rests either at
  the head of the loop or inside \<^verbatim>\<open>executeOperation\<close>, with the operation, its ordinal
  among the operations taken from the queue so far, and the files of the group still to
  visit. The engine holds the service, the activations, and three histories kept for
  the statements only: the operations submitted, the operations taken from the queue,
  and the visits to targets, each with its operation and the ordinal of the operation.
\<close>

datatype DrainLoop = AtLoopHead | InOperation nat Operation "string list"

record Engine =
  service :: Service
  loops :: "DrainLoop list"
  submitted :: "Operation list"
  started :: "Operation list"
  applied :: "(nat \<times> Operation \<times> string) list"

text \<open>
  A call of \<^verbatim>\<open>processOperation\<close>, up to the point where it returns or enters the loop.
\<close>

definition submit :: "Operation \<Rightarrow> Engine \<Rightarrow> Engine" where
  "submit operation e =
     (let s = service e;
          e1 = e\<lparr>service := s\<lparr>operationQueue := operationQueue s @ [operation]\<rparr>,
                 submitted := submitted e @ [operation]\<rparr>
      in if processingOperations s then e1
         else e1\<lparr>service := (service e1)\<lparr>processingOperations := True\<rparr>,
                 loops := loops e1 @ [AtLoopHead]\<rparr>)"

text \<open>
  Activation \<open>k\<close> runs to its next wait. At the head of the loop it leaves through
  \<^verbatim>\<open>finally\<close> when the queue is empty, and takes the first operation otherwise; inside an
  operation it visits the next file of the group.
\<close>

definition advance :: "Host \<Rightarrow> nat \<Rightarrow> nat \<Rightarrow> Engine \<Rightarrow> Engine" where
  "advance host k now e =
     (if length (loops e) \<le> k then e
      else case loops e ! k of
        AtLoopHead \<Rightarrow>
          (case operationQueue (service e) of
             [] \<Rightarrow>
               e\<lparr>service := (service e)\<lparr>processingOperations := False\<rparr>,
                 loops := take k (loops e) @ drop (Suc k) (loops e)\<rparr>
           | op # rest \<Rightarrow>
               (let s1 = (service e)\<lparr>operationQueue := rest\<rparr>;
                    e1 = e\<lparr>service := s1, started := started e @ [op]\<rparr>
                in case findGroupForFile (canvasGroups s1) (sourceFile op) of
                     None \<Rightarrow> e1
                   | Some i \<Rightarrow>
                       e1\<lparr>service :=
                            s1\<lparr>canvasGroups :=
                                 (canvasGroups s1)[i := (canvasGroups s1 ! i)\<lparr>lastSync := now\<rparr>]\<rparr>,
                          loops :=
                            (loops e)[k := InOperation (length (started e)) op
                                             (files (canvasGroups s1 ! i))]\<rparr>))
      | InOperation n op [] \<Rightarrow> e\<lparr>loops := (loops e)[k := AtLoopHead]\<rparr>
      | InOperation n op (filePath # rest) \<Rightarrow>
          e\<lparr>service := (service e)\<lparr>vault := syncTarget host op (vault (service e)) filePath\<rparr>,
            applied :=
              (if filePath = sourceFile op then applied e else applied e @ [(n, op, filePath)]),
            loops := (loops e)[k := InOperation n op rest]\<rparr>)"

datatype Event = Submit Operation | Advance nat nat

fun step :: "Host \<Rightarrow> Engine \<Rightarrow> Event \<Rightarrow> Engine" where
  "step host e (Submit operation) = submit operation e"
| "step host e (Advance k now) = advance host k now e"

definition run :: "Host \<Rightarrow> Engine \<Rightarrow> Event list \<Rightarrow> Engine" where
  "run host e events = foldl (step host) e events"

text \<open>The operations that a sequence of events submits, in the order of the calls.\<close>

fun submissions :: "Event list \<Rightarrow> Operation list" where
  "submissions [] = []"
| "submissions (Submit operation # events) = operation # submissions events"
| "submissions (Advance k now # events) = submissions events"

text \<open>The engine at rest, around a service with an empty queue.\<close>

definition idle :: "CanvasGroup list \<Rightarrow> Vault \<Rightarrow> Engine" where
  "idle groups v =
     \<lparr>service = \<lparr>canvasGroups = groups, vault = v,
                  processingOperations = False, operationQueue = []\<rparr>,
      loops = [], submitted = [], started = [], applied = []\<rparr>"

text \<open>
  The targets of an operation: the files of the first group that lists its source file,
  the source file left out. These are the files that \<^verbatim>\<open>executeOperation\<close> reads and
  writes.
\<close>

definition targetsOf :: "CanvasGroup list \<Rightarrow> Operation \<Rightarrow> string list" where
  "targetsOf groups op =
     (case findGroupForFile groups (sourceFile op) of
        None \<Rightarrow> []
      | Some i \<Rightarrow> filter (\<lambda>filePath. filePath \<noteq> sourceFile op) (files (groups ! i)))"

text \<open>
  The visits that a list of operations calls for when each operation goes to all its
  targets before the next one starts; \<open>n\<close> is the ordinal of the first operation.
\<close>

fun visitsFrom :: "CanvasGroup list \<Rightarrow> nat \<Rightarrow> Operation list \<Rightarrow> (nat \<times> Operation \<times> string) list" where
  "visitsFrom groups n [] = []"
| "visitsFrom groups n (op # ops) =
     map (\<lambda>filePath. (n, op, filePath)) (targetsOf groups op) @ visitsFrom groups (Suc n) ops"

text \<open>The vault after a list of visits, each made by \<open>syncTarget\<close>.\<close>

definition replay :: "Host \<Rightarrow> Vault \<Rightarrow> (nat \<times> Operation \<times> string) list \<Rightarrow> Vault" where
  "replay host v visits = foldl (\<lambda>v (n, op, filePath). syncTarget host op v filePath) v visits"

text \<open>The visits that the activations have still to make for the operations in hand.\<close>

fun pendingOf :: "DrainLoop \<Rightarrow> (nat \<times> Operation \<times> string) list" where
  "pendingOf AtLoopHead = []"
| "pendingOf (InOperation n op fs) =
     map (\<lambda>filePath. (n, op, filePath)) (filter (\<lambda>filePath. filePath \<noteq> sourceFile op) fs)"

definition pending :: "Engine \<Rightarrow> (nat \<times> Operation \<times> string) list" where
  "pending e = concat (map pendingOf (loops e))"

text \<open>
  What holds of the engine all along: at most one activation of the loop, and one
  exactly while \<^verbatim>\<open>processingOperations\<close> is set; with no activation the queue is
  empty; the operations taken from the queue, followed by the queue, are the operations
  submitted; the visits are in the order of the ordinals of their operations, and each
  visit is on behalf of the operation that has its ordinal; an activation inside an
  operation works on the operation taken last.
\<close>

definition engineInv :: "Engine \<Rightarrow> bool" where
  "engineInv e =
     (length (loops e) \<le> 1
      \<and> (processingOperations (service e) \<longleftrightarrow> loops e \<noteq> [])
      \<and> (loops e = [] \<longrightarrow> operationQueue (service e) = [])
      \<and> submitted e = started e @ operationQueue (service e)
      \<and> sorted (map fst (applied e))
      \<and> (\<forall>(n, op, filePath) \<in> set (applied e). n < length (started e) \<and> started e ! n = op)
      \<and> (\<forall>l \<in> set (loops e).
             case l of
               AtLoopHead \<Rightarrow> True
             | InOperation n op fs \<Rightarrow> Suc n = length (started e) \<and> started e ! n = op))"

text \<open>
  What holds of the vault all along, when the engine has started at rest with the
  groups \<open>groups\<close> and the vault \<open>v\<close>: the groups list the files they listed at the
  start; the vault is the vault of the start after the visits made so far; and the
  visits made so far, followed by the visits still to make for the operation in hand,
  are the visits that the operations taken from the queue call for, one operation after
  the other.
\<close>

definition replayInv :: "Host \<Rightarrow> CanvasGroup list \<Rightarrow> Vault \<Rightarrow> Engine \<Rightarrow> bool" where
  "replayInv host groups v e =
     (map files (canvasGroups (service e)) = map files groups
      \<and> vault (service e) = replay host v (applied e)
      \<and> applied e @ pending e = visitsFrom groups 0 (started e))"

section \<open>Example values\<close>

definition exampleNode :: "string \<Rightarrow> CanvasNodeData" where
  "exampleNode i =
     \<lparr>n_id = i, n_type = Text, n_text = Some ''old'', n_file = None, n_url = None,
      n_subtype = None, n_width = Some 250, n_height = Some 60, n_x = 0, n_y = 0\<rparr>"

definition exampleEdge :: "string \<Rightarrow> string \<Rightarrow> CanvasEdge" where
  "exampleEdge f t = \<lparr>fromNode = f, toNode = t, e_rest = []\<rparr>"

definition exampleCanvas :: CanvasData where
  "exampleCanvas =
     \<lparr>nodes = [''a'' \<mapsto> exampleNode ''a'', ''b'' \<mapsto> exampleNode ''b''],
      edges = [exampleEdge ''a'' ''b'', exampleEdge ''b'' ''b'', exampleEdge ''b'' ''a'']\<rparr>"

definition exampleHost :: Host where
  "exampleHost =
     \<lparr>jsonValid = (\<lambda>content. content \<noteq> ''oops''),
      parseCanvas = (\<lambda>content. if content = ''doc'' then Some exampleCanvas else None),
      stringify = (\<lambda>canvasData. if nodes canvasData ''a'' = None then ''doc-a'' else ''doc''),
      versionText = (\<lambda>groupFiles baseNameWithoutNumber digits. Inl RegExpSyntaxError)\<rparr>"

definition exampleVault :: "(string \<rightharpoonup> TAbstractFile) \<Rightarrow> Vault" where
  "exampleVault m =
     \<lparr>entries = m, readFails = (\<lambda>filePath. False), createFails = (\<lambda>filePath. False),
      modifyFails = (\<lambda>filePath. False), journal = []\<rparr>"

definition exampleService :: "CanvasGroup list \<Rightarrow> (string \<rightharpoonup> TAbstractFile) \<Rightarrow> Service" where
  "exampleService groups m =
     \<lparr>canvasGroups = groups, vault = exampleVault m,
      processingOperations = False, operationQueue = []\<rparr>"

text \<open>A group of three files, the second of which does not hold a canvas.\<close>

definition brokenMiddle :: Service where
  "brokenMiddle =
     exampleService [\<lparr>files = [''A.canvas'', ''B.canvas'', ''D.canvas''], lastSync = 3\<rparr>]
       [''A.canvas'' \<mapsto> TFile ''doc'', ''B.canvas'' \<mapsto> TFile ''oops'',
        ''D.canvas'' \<mapsto> TFile ''doc'']"

text \<open>A group of two files, the second of which does not hold a canvas.\<close>

definition brokenPair :: Service where
  "brokenPair =
     exampleService [\<lparr>files = [''A.canvas'', ''B.canvas''], lastSync = 3\<rparr>]
       [''A.canvas'' \<mapsto> TFile ''doc'', ''B.canvas'' \<mapsto> TFile ''oops'']"

text \<open>Two groups that both list \<^verbatim>\<open>A.canvas\<close>.\<close>

definition sharedSource :: Service where
  "sharedSource =
     exampleService [\<lparr>files = [''A.canvas'', ''B.canvas''], lastSync = 3\<rparr>,
                     \<lparr>files = [''A.canvas'', ''C.canvas''], lastSync = 4\<rparr>]
       [''A.canvas'' \<mapsto> TFile ''doc'', ''B.canvas'' \<mapsto> TFile ''oops'',
        ''C.canvas'' \<mapsto> TFile ''doc'']"

definition deleteA :: "string \<Rightarrow> Operation" where
  "deleteA filePath = \<lparr>opData = DeleteNode ''a'', sourceFile = filePath\<rparr>"

text \<open>The group of the scenario of the specification, and a file outside it.\<close>

definition scenario :: Service where
  "scenario =
     exampleService [\<lparr>files = [''A.canvas'', ''AC1.canvas'', ''AC3.canvas''], lastSync = 3\<rparr>]
       [''A.canvas'' \<mapsto> TFile ''doc'', ''AC1.canvas'' \<mapsto> TFile ''doc'',
        ''AC3.canvas'' \<mapsto> TFile ''doc'', ''Notes.canvas'' \<mapsto> TFile ''doc'']"

text \<open>The same, with a file that cannot be read.\<close>

definition scenarioLocked :: Service where
  "scenarioLocked =
     scenario\<lparr>vault := (vault scenario)\<lparr>readFails := (\<lambda>filePath. filePath = ''Notes.canvas'')\<rparr>\<rparr>"

text \<open>A group of two versioned files whose common prefix ends in a plus sign.\<close>

definition plusGroup :: Service where
  "plusGroup =
     exampleService [\<lparr>files = [''A+C1.canvas'', ''A+C3.canvas''], lastSync = 3\<rparr>]
       [''A+C1.canvas'' \<mapsto> TFile ''doc'', ''A+C3.canvas'' \<mapsto> TFile ''doc'']"

text \<open>The same prefix, after one derivation from the first file.\<close>

definition plusPair :: Service where
  "plusPair =
     exampleService [\<lparr>files = [''A+C1.canvas'', ''A+C2.canvas''], lastSync = 3\<rparr>]
       [''A+C1.canvas'' \<mapsto> TFile ''doc'', ''A+C2.canvas'' \<mapsto> TFile ''doc'']"

text \<open>A canvas in a folder whose name contains the name of the canvas.\<close>

definition nestedName :: Service where
  "nestedName =
     exampleService []
       [''Notes.canvas.bak'' \<mapsto> TFolder, ''NotesC1.canvas.bak'' \<mapsto> TFolder,
        ''Notes.canvas.bak/Notes.canvas'' \<mapsto> TFile ''doc'']"

text \<open>
  Two operations from \<^verbatim>\<open>A.canvas\<close> in the scenario; the second call arrives while
  the first operation is on its way through the group.
\<close>

definition sayHi :: Operation where
  "sayHi = \<lparr>opData = UpdateNodeText ''a'' ''hi'', sourceFile = ''A.canvas''\<rparr>"

definition overlapped :: Engine where
  "overlapped =
     run exampleHost (idle (canvasGroups scenario) (vault scenario))
       [Submit sayHi, Advance 0 10, Advance 0 11, Advance 0 12, Submit (deleteA ''A.canvas''),
        Advance 0 13, Advance 0 14, Advance 0 15, Advance 0 16, Advance 0 17]"

text \<open>A group of two versioned files with the plain prefix \<^verbatim>\<open>A\<close>, in a folder.\<close>

definition plainGroup :: Service where
  "plainGroup =
     exampleService [\<lparr>files = [''maps/AC1.canvas'', ''maps/AC3.canvas''], lastSync = 3\<rparr>]
       [''maps'' \<mapsto> TFolder, ''maps/AC1.canvas'' \<mapsto> TFile ''doc'',
        ''maps/AC3.canvas'' \<mapsto> TFile ''doc'']"

section \<open>Properties of the handlers\<close>

text \<open>
  C5. Applying \<open>DeleteNode nodeId\<close> to a canvas removes the node stored under that key
  and leaves every other key of the node mapping as it was. An edge is in the new edge
  list exactly when it was in the old one and mentions \<open>nodeId\<close> neither as its source
  nor as its target; the new list keeps the order of the old one, and every edge that
  does not mention \<open>nodeId\<close> occurs as often as before.
\<close>

theorem deleteNode_cleans_edges:
  "nodes (applyOperation (DeleteNode nodeId) c) nodeId = None
   \<and> (\<forall>k. k \<noteq> nodeId \<longrightarrow> nodes (applyOperation (DeleteNode nodeId) c) k = nodes c k)
   \<and> (\<forall>e. e \<in> set (edges (applyOperation (DeleteNode nodeId) c))
          \<longleftrightarrow> e \<in> set (edges c) \<and> fromNode e \<noteq> nodeId \<and> toNode e \<noteq> nodeId)
   \<and> subseq (edges (applyOperation (DeleteNode nodeId) c)) (edges c)
   \<and> (\<forall>e. fromNode e \<noteq> nodeId \<and> toNode e \<noteq> nodeId \<longrightarrow>
          count_list (edges (applyOperation (DeleteNode nodeId) c)) e = count_list (edges c) e)"
proof -
  let ?keep = "\<lambda>edge. fromNode edge \<noteq> nodeId \<and> toNode edge \<noteq> nodeId"
  have E: "edges (applyOperation (DeleteNode nodeId) c) = filter ?keep (edges c)"
    by (simp add: handleDeleteNode_def)
  have N: "nodes (applyOperation (DeleteNode nodeId) c) = (nodes c)(nodeId := None)"
    by (simp add: handleDeleteNode_def)
  have cnt: "?keep e \<Longrightarrow> count_list (filter ?keep xs) e = count_list xs e" for e xs
    by (induction xs) auto
  show ?thesis
    unfolding E N using cnt by auto
qed

theorem deleteNode_cleans_edges_witness:
  "nodes (applyOperation (DeleteNode ''a'') exampleCanvas) ''a'' = None
   \<and> nodes (applyOperation (DeleteNode ''a'') exampleCanvas) ''b'' = Some (exampleNode ''b'')
   \<and> exampleEdge ''a'' ''b'' \<notin> set (edges (applyOperation (DeleteNode ''a'') exampleCanvas))
   \<and> exampleEdge ''b'' ''b'' \<in> set (edges (applyOperation (DeleteNode ''a'') exampleCanvas))
   \<and> count_list (edges (applyOperation (DeleteNode ''a'') exampleCanvas)) (exampleEdge ''b'' ''b'') = 1"
  using deleteNode_cleans_edges [of "''a''" exampleCanvas]
  by (simp add: exampleCanvas_def exampleEdge_def)

text \<open>
  C9. Applying \<open>UpdateNodeText nodeId newText\<close> to a canvas that has a node under
  \<open>nodeId\<close> puts \<open>newText\<close> in the text field of that node and changes nothing else of
  it; the other nodes and the edges stay as they were. On a canvas with no node under
  \<open>nodeId\<close> the result is the canvas itself.
\<close>

theorem updateNodeText_replaces_text:
  "(\<forall>node. nodes c nodeId = Some node \<longrightarrow>
       nodes (applyOperation (UpdateNodeText nodeId newText) c) nodeId
         = Some (node\<lparr>n_text := Some newText\<rparr>))
   \<and> (\<forall>k. k \<noteq> nodeId \<longrightarrow>
         nodes (applyOperation (UpdateNodeText nodeId newText) c) k = nodes c k)
   \<and> edges (applyOperation (UpdateNodeText nodeId newText) c) = edges c
   \<and> (nodes c nodeId = None \<longrightarrow> applyOperation (UpdateNodeText nodeId newText) c = c)"
  by (simp add: handleUpdateNodeText_def split: option.splits)

theorem updateNodeText_replaces_text_witness:
  "nodes (applyOperation (UpdateNodeText ''a'' ''hi'') exampleCanvas) ''a''
     = Some ((exampleNode ''a'')\<lparr>n_text := Some ''hi''\<rparr>)
   \<and> nodes (applyOperation (UpdateNodeText ''a'' ''hi'') exampleCanvas) ''b''
       = Some (exampleNode ''b'')
   \<and> applyOperation (UpdateNodeText ''z'' ''hi'') exampleCanvas = exampleCanvas"
  using updateNodeText_replaces_text [of exampleCanvas "''a''" "''hi''"]
        updateNodeText_replaces_text [of exampleCanvas "''z''" "''hi''"]
  by (simp add: exampleCanvas_def)

section \<open>Properties of propagation\<close>

lemma findGroupForFile_Some:
  "findGroupForFile gs p = Some i \<Longrightarrow> i < length gs \<and> p \<in> set (files (gs ! i))"
  by (induction gs arbitrary: i) (auto split: if_splits)

lemma findGroupForFile_first:
  "findGroupForFile gs p = Some i \<Longrightarrow> j < i \<Longrightarrow> p \<notin> set (files (gs ! j))"
proof (induction gs arbitrary: i j)
  case Nil then show ?case by simp
next
  case (Cons g gs)
  then show ?case by (cases j) (auto split: if_splits)
qed

lemma findGroupForFile_None:
  "findGroupForFile gs p = None \<longleftrightarrow> (\<forall>g \<in> set gs. p \<notin> set (files g))"
  by (induction gs) auto

lemma syncTarget_fails [simp]:
  "readFails (syncTarget host operation v f) = readFails v"
  "modifyFails (syncTarget host operation v f) = modifyFails v"
  "createFails (syncTarget host operation v f) = createFails v"
  by (auto simp: syncTarget_def vault_read_def vault_modify_def Let_def
           split: option.splits TAbstractFile.splits)

lemma syncTarget_entries_other:
  "p \<noteq> f \<Longrightarrow> entries (syncTarget host operation v f) p = entries v p"
  by (auto simp: syncTarget_def vault_read_def vault_modify_def Let_def
           split: option.splits TAbstractFile.splits)

lemma syncTarget_entries_skip:
  "f = sourceFile operation \<or> \<not> isTFile v f \<or> readFails v f \<or> modifyFails v f
     \<or> (\<forall>content. entries v f = Some (TFile content) \<longrightarrow> parseCanvas host content = None)
   \<Longrightarrow> entries (syncTarget host operation v f) f = entries v f"
  by (auto simp: syncTarget_def vault_read_def vault_modify_def Let_def isTFile_def
           split: option.splits TAbstractFile.splits)

lemma syncTarget_entries_apply:
  "f \<noteq> sourceFile operation \<Longrightarrow> entries v f = Some (TFile content) \<Longrightarrow> \<not> readFails v f
   \<Longrightarrow> \<not> modifyFails v f \<Longrightarrow> parseCanvas host content = Some c
   \<Longrightarrow> entries (syncTarget host operation v f) f
         = Some (TFile (stringify host (applyOperation (opData operation) c)))"
  by (auto simp: syncTarget_def vault_read_def vault_modify_def Let_def isTFile_def
           split: option.splits TAbstractFile.splits)

lemma syncTarget_entries_cong:
  "entries v' f = entries v f \<Longrightarrow> readFails v' f = readFails v f \<Longrightarrow> modifyFails v' f = modifyFails v f
   \<Longrightarrow> entries (syncTarget host operation v' f) f = entries (syncTarget host operation v f) f"
  by (auto simp: syncTarget_def vault_read_def vault_modify_def Let_def isTFile_def
           split: option.splits TAbstractFile.splits)

lemma foldl_syncTarget_fails [simp]:
  "readFails (foldl (syncTarget host operation) v fs) = readFails v"
  "modifyFails (foldl (syncTarget host operation) v fs) = modifyFails v"
  "createFails (foldl (syncTarget host operation) v fs) = createFails v"
  by (induction fs arbitrary: v) auto

lemma foldl_syncTarget_other:
  "p \<notin> set fs \<Longrightarrow> entries (foldl (syncTarget host operation) v fs) p = entries v p"
  by (induction fs arbitrary: v) (auto simp: syncTarget_entries_other)

lemma foldl_syncTarget_member:
  "distinct fs \<Longrightarrow> t \<in> set fs \<Longrightarrow>
   entries (foldl (syncTarget host operation) v fs) t = entries (syncTarget host operation v t) t"
proof (induction fs arbitrary: v)
  case Nil then show ?case by simp
next
  case (Cons f fs)
  show ?case
  proof (cases "t = f")
    case True
    with Cons.prems show ?thesis by (simp add: foldl_syncTarget_other)
  next
    case False
    with Cons.prems have "t \<in> set fs" "distinct fs" by auto
    then have "entries (foldl (syncTarget host operation) (syncTarget host operation v f) fs) t
               = entries (syncTarget host operation (syncTarget host operation v f) t) t"
      by (rule Cons.IH[rotated])
    also have "\<dots> = entries (syncTarget host operation v t) t"
      using False by (intro syncTarget_entries_cong) (simp_all add: syncTarget_entries_other)
    finally show ?thesis by simp
  qed
qed

lemma executeOperation_queue [simp]:
  "operationQueue (executeOperation host now operation s) = operationQueue s"
  "processingOperations (executeOperation host now operation s) = processingOperations s"
  by (auto simp: executeOperation_def Let_def split: option.splits)

lemma drainQueue_idle:
  "operationQueue (drainQueue host clock k s) = []
   \<and> processingOperations (drainQueue host clock k s) = processingOperations s"
proof (induction host clock k s rule: drainQueue.induct)
  case (1 host clock k s)
  show ?case
  proof (cases "operationQueue s")
    case Nil
    then show ?thesis by (simp add: drainQueue.simps)
  next
    case (Cons op rest)
    with 1 show ?thesis by (simp add: drainQueue.simps[of host clock k s])
  qed
qed

text \<open>
  C10. An operation whose source file is in no group changes nothing: executing it
  returns the state as it was, with the same vault entries and the same journal, so no
  file was read or written; and a call of \<^verbatim>\<open>processOperation\<close> with it on a service at
  rest returns the service as it was.
\<close>

theorem ungrouped_operation_writes_nothing:
  "findGroupForFile (canvasGroups s) (sourceFile operation) = None \<Longrightarrow>
     executeOperation host now operation s = s
     \<and> (\<not> processingOperations s \<and> operationQueue s = [] \<longrightarrow>
          processOperation host clock operation s = s)"
  by (simp add: executeOperation_def processOperation_def Let_def drainQueue.simps)

text \<open>An operation from a file outside the one group of the example.\<close>

theorem ungrouped_operation_writes_nothing_witness:
  "executeOperation exampleHost 7 (deleteA ''Z.canvas'') brokenMiddle = brokenMiddle
   \<and> processOperation exampleHost (\<lambda>k. 7) (deleteA ''Z.canvas'') brokenMiddle = brokenMiddle"
  using ungrouped_operation_writes_nothing
          [of brokenMiddle "deleteA ''Z.canvas''" exampleHost 7 "\<lambda>k. 7"]
  by (simp add: brokenMiddle_def exampleService_def deleteA_def)

text \<open>
  C8, as stated, fails. The second file of the group does not hold a canvas, so the
  operation reaches no target: the vault entries are as before and the journal shows
  one read and no write. The time of the last synchronisation has moved from 3 to 7
  all the same.
\<close>

theorem lastSync_refreshed_without_success:
  "lastSync (canvasGroups brokenPair ! 0) = 3
   \<and> lastSync (canvasGroups (executeOperation exampleHost 7 (deleteA ''A.canvas'') brokenPair) ! 0) = 7
   \<and> entries (vault (executeOperation exampleHost 7 (deleteA ''A.canvas'') brokenPair))
       = entries (vault brokenPair)
   \<and> journal (vault (executeOperation exampleHost 7 (deleteA ''A.canvas'') brokenPair))
       = [CallRead ''B.canvas'']"
  by (simp add: brokenPair_def exampleService_def exampleVault_def deleteA_def exampleHost_def
        executeOperation_def syncTarget_def isTFile_def vault_read_def Let_def)

text \<open>
  C8, amended. Executing an operation sets the time of the last synchronisation of one
  group at most: the group that \<^verbatim>\<open>findGroupForFile\<close> returns, which is the first group
  of the list whose files include the source file of the operation. That group gets the
  current time, whatever the vault holds and whatever happens to the targets; its files,
  the number of groups and every other group stay as they were, also a later group that
  lists the source file as well. An operation whose source file is in no group changes
  no group.
\<close>

theorem lastSync_set_when_processed:
  "(\<forall>i. findGroupForFile (canvasGroups s) (sourceFile operation) = Some i \<longrightarrow>
      i < length (canvasGroups s)
      \<and> sourceFile operation \<in> set (files (canvasGroups s ! i))
      \<and> (\<forall>j < i. sourceFile operation \<notin> set (files (canvasGroups s ! j)))
      \<and> length (canvasGroups (executeOperation host now operation s)) = length (canvasGroups s)
      \<and> lastSync (canvasGroups (executeOperation host now operation s) ! i) = now
      \<and> files (canvasGroups (executeOperation host now operation s) ! i)
          = files (canvasGroups s ! i)
      \<and> (\<forall>j. j \<noteq> i \<longrightarrow>
            canvasGroups (executeOperation host now operation s) ! j = canvasGroups s ! j))
   \<and> ((\<exists>g \<in> set (canvasGroups s). sourceFile operation \<in> set (files g)) \<longrightarrow>
        (\<exists>i. findGroupForFile (canvasGroups s) (sourceFile operation) = Some i))
   \<and> ((\<forall>g \<in> set (canvasGroups s). sourceFile operation \<notin> set (files g)) \<longrightarrow>
        canvasGroups (executeOperation host now operation s) = canvasGroups s)
   \<and> canvasGroups (executeOperation host now operation (s\<lparr>vault := v'\<rparr>))
       = canvasGroups (executeOperation host now operation s)"
proof -
  have A: "i < length (canvasGroups s)
      \<and> sourceFile operation \<in> set (files (canvasGroups s ! i))
      \<and> (\<forall>j < i. sourceFile operation \<notin> set (files (canvasGroups s ! j)))
      \<and> length (canvasGroups (executeOperation host now operation s)) = length (canvasGroups s)
      \<and> lastSync (canvasGroups (executeOperation host now operation s) ! i) = now
      \<and> files (canvasGroups (executeOperation host now operation s) ! i)
          = files (canvasGroups s ! i)
      \<and> (\<forall>j. j \<noteq> i \<longrightarrow>
            canvasGroups (executeOperation host now operation s) ! j = canvasGroups s ! j)"
    if g: "findGroupForFile (canvasGroups s) (sourceFile operation) = Some i" for i
    using g findGroupForFile_Some[OF g] findGroupForFile_first[OF g]
    by (simp add: executeOperation_def Let_def)
  have B: "\<exists>i. findGroupForFile (canvasGroups s) (sourceFile operation) = Some i"
    if "\<exists>g \<in> set (canvasGroups s). sourceFile operation \<in> set (files g)"
    using that findGroupForFile_None[of "canvasGroups s" "sourceFile operation"] by auto
  have C: "canvasGroups (executeOperation host now operation s) = canvasGroups s"
    if "\<forall>g \<in> set (canvasGroups s). sourceFile operation \<notin> set (files g)"
    using that findGroupForFile_None[of "canvasGroups s" "sourceFile operation"]
    by (simp add: executeOperation_def)
  have D: "canvasGroups (executeOperation host now operation (s\<lparr>vault := v'\<rparr>))
       = canvasGroups (executeOperation host now operation s)"
    by (simp add: executeOperation_def Let_def split: option.splits)
  from A B C D show ?thesis by blast
qed

text \<open>
  In the group of two the time moves from 3 to 7 although no target is written. Where
  two groups list the source file, the first gets the time 7 and the second keeps its
  time 4. An operation from a file outside the groups leaves both times as they were.
\<close>

theorem lastSync_set_when_processed_witness:
  "lastSync (canvasGroups (executeOperation exampleHost 7 (deleteA ''A.canvas'') brokenPair) ! 0) = 7
   \<and> files (canvasGroups (executeOperation exampleHost 7 (deleteA ''A.canvas'') brokenPair) ! 0)
       = [''A.canvas'', ''B.canvas'']
   \<and> map lastSync (canvasGroups (executeOperation exampleHost 7 (deleteA ''A.canvas'') sharedSource))
       = [7, 4]
   \<and> map lastSync (canvasGroups (executeOperation exampleHost 7 (deleteA ''Z.canvas'') sharedSource))
       = [3, 4]"
proof -
  have "findGroupForFile (canvasGroups brokenPair) (sourceFile (deleteA ''A.canvas'')) = Some 0"
    by (simp add: brokenPair_def exampleService_def deleteA_def)
  from lastSync_set_when_processed
         [of brokenPair "deleteA ''A.canvas''" exampleHost 7 "vault brokenPair",
          THEN conjunct1, rule_format, OF this]
  have 1: "lastSync (canvasGroups (executeOperation exampleHost 7 (deleteA ''A.canvas'') brokenPair) ! 0) = 7
   \<and> files (canvasGroups (executeOperation exampleHost 7 (deleteA ''A.canvas'') brokenPair) ! 0)
       = [''A.canvas'', ''B.canvas'']"
    by (simp add: brokenPair_def exampleService_def)
  have "findGroupForFile (canvasGroups sharedSource) (sourceFile (deleteA ''A.canvas'')) = Some 0"
    by (simp add: sharedSource_def exampleService_def deleteA_def)
  from lastSync_set_when_processed
         [of sharedSource "deleteA ''A.canvas''" exampleHost 7 "vault sharedSource",
          THEN conjunct1, rule_format, OF this]
  have "length (canvasGroups (executeOperation exampleHost 7 (deleteA ''A.canvas'') sharedSource)) = 2
     \<and> lastSync (canvasGroups (executeOperation exampleHost 7 (deleteA ''A.canvas'') sharedSource) ! 0) = 7
     \<and> canvasGroups (executeOperation exampleHost 7 (deleteA ''A.canvas'') sharedSource) ! 1
         = canvasGroups sharedSource ! 1"
    by (simp add: sharedSource_def exampleService_def)
  then have 2: "map lastSync (canvasGroups (executeOperation exampleHost 7 (deleteA ''A.canvas'') sharedSource))
       = [7, 4]"
    by (intro nth_equalityI) (auto simp: less_Suc_eq numeral_2_eq_2 sharedSource_def exampleService_def)
  have "\<forall>g \<in> set (canvasGroups sharedSource). sourceFile (deleteA ''Z.canvas'') \<notin> set (files g)"
    by (simp add: sharedSource_def exampleService_def deleteA_def)
  from lastSync_set_when_processed
         [of sharedSource "deleteA ''Z.canvas''" exampleHost 7 "vault sharedSource",
          THEN conjunct2, THEN conjunct2, THEN conjunct1, THEN mp, OF this]
  have 3: "map lastSync (canvasGroups (executeOperation exampleHost 7 (deleteA ''Z.canvas'') sharedSource))
       = [3, 4]"
    by (simp add: sharedSource_def exampleService_def)
  from 1 2 3 show ?thesis by blast
qed

lemma foldl_syncTarget_local:
  "entries v' t = entries v t \<Longrightarrow> readFails v' t = readFails v t
   \<Longrightarrow> modifyFails v' t = modifyFails v t
   \<Longrightarrow> entries (foldl (syncTarget host operation) v' fs) t
       = entries (foldl (syncTarget host operation) v fs) t"
proof (induction fs arbitrary: v v')
  case Nil
  then show ?case by simp
next
  case (Cons f fs)
  have "entries (syncTarget host operation v' f) t = entries (syncTarget host operation v f) t"
  proof (cases "f = t")
    case True
    from Cons.prems show ?thesis
      unfolding True by (rule syncTarget_entries_cong)
  next
    case False
    with Cons.prems show ?thesis by (simp add: syncTarget_entries_other)
  qed
  then have "entries (foldl (syncTarget host operation) (syncTarget host operation v' f) fs) t
       = entries (foldl (syncTarget host operation) (syncTarget host operation v f) fs) t"
    using Cons.prems by (intro Cons.IH) simp_all
  then show ?case by simp
qed

text \<open>
  The loop executes the operations of its queue one after the other, in the order of the
  queue, and leaves the queue empty.
\<close>

lemma executeOperation_queue_update:
  "executeOperation host now operation (s\<lparr>operationQueue := q\<rparr>)
   = (executeOperation host now operation s)\<lparr>operationQueue := q\<rparr>"
  "executeOperation host now operation (s\<lparr>processingOperations := b\<rparr>)
   = (executeOperation host now operation s)\<lparr>processingOperations := b\<rparr>"
  by (simp_all add: executeOperation_def Let_def split: option.splits)

lemma executeAll_queue_update:
  "executeAll host clock k ops (s\<lparr>operationQueue := q\<rparr>)
   = (executeAll host clock k ops s)\<lparr>operationQueue := q\<rparr>"
  "executeAll host clock k ops (s\<lparr>processingOperations := b\<rparr>)
   = (executeAll host clock k ops s)\<lparr>processingOperations := b\<rparr>"
  by (induction ops arbitrary: s k) (simp_all add: executeOperation_queue_update)

lemma drainQueue_executeAll:
  "drainQueue host clock k s
   = (executeAll host clock k (operationQueue s) s)\<lparr>operationQueue := []\<rparr>"
proof (induction host clock k s rule: drainQueue.induct)
  case (1 host clock k s)
  show ?case
  proof (cases "operationQueue s")
    case Nil
    then have "s\<lparr>operationQueue := []\<rparr> = s" by (cases s) simp
    with Nil show ?thesis by (simp add: drainQueue.simps[of host clock k s])
  next
    case (Cons op rest)
    with 1 show ?thesis
      by (simp add: drainQueue.simps[of host clock k s] executeOperation_queue_update
            executeAll_queue_update)
  qed
qed

lemma processOperation_executeAll:
  "\<not> processingOperations s \<Longrightarrow>
   processOperation host clock operation s
   = (executeAll host clock 0 (operationQueue s @ [operation]) s)
       \<lparr>operationQueue := [], processingOperations := False\<rparr>"
  by (simp add: processOperation_def Let_def drainQueue_executeAll executeAll_queue_update)

text \<open>
  C7. Let the source file of an operation be in a group. What happens to a path depends
  on that path alone: with another vault that agrees with the given one at the path (in
  what the path holds and in whether reading and writing it fail), the path ends up
  holding the same, whatever has changed at the other paths. If the files of the group
  are distinct, a target that is a readable, writable file holding a canvas ends up
  holding the canvas with the operation applied, and a path that is no target, or a
  target that is no file, cannot be read, does not hold a canvas or cannot be written,
  ends up as it was. And a call of \<^verbatim>\<open>processOperation\<close> on a service at rest leaves
  the service at rest with an empty queue, whatever failed on the way. The group of the
  operation gets the current time as the time of its last synchronisation, whatever
  failed at the targets. The call on a service at rest executes the operations of the
  queue and then its own, each of them once and in this order, so a failure at a target
  of one operation keeps no later operation from being executed; each of them is
  executed as described above, on the state that the operations before it have left.
\<close>

theorem propagation_failures_are_local:
  assumes "findGroupForFile (canvasGroups s) (sourceFile operation) = Some i"
  shows "(distinct (files (canvasGroups s ! i)) \<longrightarrow>
          (\<forall>t content c.
            t \<in> set (files (canvasGroups s ! i)) \<and> t \<noteq> sourceFile operation
            \<and> entries (vault s) t = Some (TFile content) \<and> \<not> readFails (vault s) t
            \<and> parseCanvas host content = Some c \<and> \<not> modifyFails (vault s) t
          \<longrightarrow> entries (vault (executeOperation host now operation s)) t
                = Some (TFile (stringify host (applyOperation (opData operation) c))))
          \<and> (\<forall>t. t \<notin> set (files (canvasGroups s ! i)) \<or> t = sourceFile operation
            \<or> \<not> isTFile (vault s) t \<or> readFails (vault s) t \<or> modifyFails (vault s) t
            \<or> (\<forall>content. entries (vault s) t = Some (TFile content) \<longrightarrow>
                  parseCanvas host content = None)
          \<longrightarrow> entries (vault (executeOperation host now operation s)) t = entries (vault s) t))
     \<and> (\<forall>t v'. entries v' t = entries (vault s) t \<and> readFails v' t = readFails (vault s) t
            \<and> modifyFails v' t = modifyFails (vault s) t
          \<longrightarrow> entries (vault (executeOperation host now operation (s\<lparr>vault := v'\<rparr>))) t
                = entries (vault (executeOperation host now operation s)) t)
     \<and> (\<not> processingOperations s \<longrightarrow>
          \<not> processingOperations (processOperation host clock operation s)
          \<and> operationQueue (processOperation host clock operation s) = [])
     \<and> lastSync (canvasGroups (executeOperation host now operation s) ! i) = now
     \<and> (\<not> processingOperations s \<longrightarrow>
          processOperation host clock operation s
          = (executeAll host clock 0 (operationQueue s @ [operation]) s)
              \<lparr>operationQueue := [], processingOperations := False\<rparr>)"
proof -
  let ?fs = "files (canvasGroups s ! i)"
  have V: "entries (vault (executeOperation host now operation (s\<lparr>vault := v\<rparr>))) t
           = entries (foldl (syncTarget host operation) v ?fs) t" for t v
    using assms(1) by (simp add: executeOperation_def Let_def)
  from V[of "vault s"]
  have V0: "entries (vault (executeOperation host now operation s)) t
           = entries (foldl (syncTarget host operation) (vault s) ?fs) t" for t
    by simp
  have A: "entries (vault (executeOperation host now operation s)) t
           = Some (TFile (stringify host (applyOperation (opData operation) c)))"
    if "distinct ?fs" "t \<in> set ?fs" "t \<noteq> sourceFile operation"
       "entries (vault s) t = Some (TFile content)"
       "\<not> readFails (vault s) t" "parseCanvas host content = Some c" "\<not> modifyFails (vault s) t"
    for t content c
    using that
    by (simp add: V0 foldl_syncTarget_member syncTarget_entries_apply)
  have B: "entries (vault (executeOperation host now operation s)) t = entries (vault s) t"
    if d: "distinct ?fs" and "t \<notin> set ?fs \<or> t = sourceFile operation
        \<or> \<not> isTFile (vault s) t \<or> readFails (vault s) t \<or> modifyFails (vault s) t
        \<or> (\<forall>content. entries (vault s) t = Some (TFile content) \<longrightarrow>
              parseCanvas host content = None)" for t
  proof (cases "t \<in> set ?fs")
    case False
    then show ?thesis by (simp add: V0 foldl_syncTarget_other)
  next
    case True
    with that have "t = sourceFile operation
        \<or> \<not> isTFile (vault s) t \<or> readFails (vault s) t \<or> modifyFails (vault s) t
        \<or> (\<forall>content. entries (vault s) t = Some (TFile content) \<longrightarrow>
              parseCanvas host content = None)" by blast
    from syncTarget_entries_skip[OF this] True d
    show ?thesis by (simp add: V0 foldl_syncTarget_member)
  qed
  have N: "entries (vault (executeOperation host now operation (s\<lparr>vault := v'\<rparr>))) t
                = entries (vault (executeOperation host now operation s)) t"
    if "entries v' t = entries (vault s) t" "readFails v' t = readFails (vault s) t"
       "modifyFails v' t = modifyFails (vault s) t" for t v'
    unfolding V V0 using that by (rule foldl_syncTarget_local)
  have C: "\<not> processingOperations s \<Longrightarrow>
          \<not> processingOperations (processOperation host clock operation s)
          \<and> operationQueue (processOperation host clock operation s) = []"
    by (simp add: processOperation_def Let_def drainQueue_idle)
  have L: "lastSync (canvasGroups (executeOperation host now operation s) ! i) = now"
    using assms findGroupForFile_Some[OF assms] by (simp add: executeOperation_def Let_def)
  have Q: "\<not> processingOperations s \<Longrightarrow>
          processOperation host clock operation s
          = (executeAll host clock 0 (operationQueue s @ [operation]) s)
              \<lparr>operationQueue := [], processingOperations := False\<rparr>"
    by (rule processOperation_executeAll)
  from A B N C L Q show ?thesis by blast
qed

text \<open>
  In the group of three, the operation from the first file skips the broken second file
  and reaches the third. With an operation waiting in the queue, the call executes that
  operation and then its own: the record of calls of the vault shows, for each of the
  two, the read of the broken second file and then the read and the write of the third.
\<close>

theorem propagation_failures_are_local_witness:
  "entries (vault (executeOperation exampleHost 7 (deleteA ''A.canvas'') brokenMiddle)) ''D.canvas''
     = Some (TFile ''doc-a'')
   \<and> entries (vault (executeOperation exampleHost 7 (deleteA ''A.canvas'') brokenMiddle)) ''B.canvas''
     = Some (TFile ''oops'')
   \<and> entries (vault (executeOperation exampleHost 7 (deleteA ''A.canvas'')
                       (brokenMiddle\<lparr>vault := (vault brokenMiddle)
                          \<lparr>readFails := (\<lambda>filePath. filePath = ''B.canvas'')\<rparr>\<rparr>))) ''D.canvas''
     = Some (TFile ''doc-a'')
   \<and> \<not> processingOperations (processOperation exampleHost (\<lambda>k. 7) (deleteA ''A.canvas'') brokenMiddle)
   \<and> operationQueue (processOperation exampleHost (\<lambda>k. 7) (deleteA ''A.canvas'') brokenMiddle) = []
   \<and> lastSync (canvasGroups (executeOperation exampleHost 7 (deleteA ''A.canvas'') brokenMiddle) ! 0) = 7
   \<and> journal (vault (processOperation exampleHost (\<lambda>k. 7) (deleteA ''A.canvas'')
                       (brokenMiddle\<lparr>operationQueue := [sayHi]\<rparr>)))
       = [CallRead ''B.canvas'', CallRead ''D.canvas'', CallModify ''D.canvas'' ''doc'',
          CallRead ''B.canvas'', CallRead ''D.canvas'', CallModify ''D.canvas'' ''doc-a'']"
proof -
  have g: "findGroupForFile (canvasGroups brokenMiddle) (sourceFile (deleteA ''A.canvas'')) = Some 0"
    by (simp add: brokenMiddle_def exampleService_def deleteA_def)
  have d: "distinct (files (canvasGroups brokenMiddle ! 0))"
    by (simp add: brokenMiddle_def exampleService_def)
  note T = propagation_failures_are_local [OF g, of exampleHost 7 "\<lambda>k. 7"]
  note D = T [THEN conjunct1, rule_format, OF d]
  have 1: "entries (vault (executeOperation exampleHost 7 (deleteA ''A.canvas'') brokenMiddle)) ''D.canvas''
     = Some (TFile (stringify exampleHost (applyOperation (opData (deleteA ''A.canvas'')) exampleCanvas)))"
    using D [THEN conjunct1, rule_format, of "''D.canvas''" "''doc''" exampleCanvas]
    by (simp add: brokenMiddle_def exampleService_def exampleVault_def deleteA_def exampleHost_def)
  have 2: "entries (vault (executeOperation exampleHost 7 (deleteA ''A.canvas'') brokenMiddle)) ''B.canvas''
     = entries (vault brokenMiddle) ''B.canvas''"
    using D [THEN conjunct2, rule_format, of "''B.canvas''"]
    by (simp add: brokenMiddle_def exampleService_def exampleVault_def deleteA_def exampleHost_def)
  have 3: "entries (vault (executeOperation exampleHost 7 (deleteA ''A.canvas'')
                       (brokenMiddle\<lparr>vault := (vault brokenMiddle)
                          \<lparr>readFails := (\<lambda>filePath. filePath = ''B.canvas'')\<rparr>\<rparr>))) ''D.canvas''
     = entries (vault (executeOperation exampleHost 7 (deleteA ''A.canvas'') brokenMiddle)) ''D.canvas''"
    using T [THEN conjunct2, THEN conjunct1, rule_format, of
              "(vault brokenMiddle)\<lparr>readFails := (\<lambda>filePath. filePath = ''B.canvas'')\<rparr>"
              "''D.canvas''"]
    by (simp add: brokenMiddle_def exampleService_def exampleVault_def)
  have 4: "\<not> processingOperations (processOperation exampleHost (\<lambda>k. 7) (deleteA ''A.canvas'') brokenMiddle)
   \<and> operationQueue (processOperation exampleHost (\<lambda>k. 7) (deleteA ''A.canvas'') brokenMiddle) = []"
    using T [THEN conjunct2, THEN conjunct2, THEN conjunct1]
    by (simp add: brokenMiddle_def exampleService_def)
  have 5: "lastSync (canvasGroups (executeOperation exampleHost 7 (deleteA ''A.canvas'') brokenMiddle) ! 0) = 7"
    using T [THEN conjunct2, THEN conjunct2, THEN conjunct2, THEN conjunct1] .
  have g': "findGroupForFile (canvasGroups (brokenMiddle\<lparr>operationQueue := [sayHi]\<rparr>))
              (sourceFile (deleteA ''A.canvas'')) = Some 0"
    by (simp add: brokenMiddle_def exampleService_def deleteA_def)
  have i': "\<not> processingOperations (brokenMiddle\<lparr>operationQueue := [sayHi]\<rparr>)"
    by (simp add: brokenMiddle_def exampleService_def)
  have e: "journal (vault ((executeAll exampleHost (\<lambda>k. 7) 0
                 (operationQueue (brokenMiddle\<lparr>operationQueue := [sayHi]\<rparr>) @ [deleteA ''A.canvas''])
                 (brokenMiddle\<lparr>operationQueue := [sayHi]\<rparr>))
              \<lparr>operationQueue := [], processingOperations := False\<rparr>))
       = [CallRead ''B.canvas'', CallRead ''D.canvas'', CallModify ''D.canvas'' ''doc'',
          CallRead ''B.canvas'', CallRead ''D.canvas'', CallModify ''D.canvas'' ''doc-a'']"
    by code_simp
  have 6: "journal (vault (processOperation exampleHost (\<lambda>k. 7) (deleteA ''A.canvas'')
                       (brokenMiddle\<lparr>operationQueue := [sayHi]\<rparr>)))
       = [CallRead ''B.canvas'', CallRead ''D.canvas'', CallModify ''D.canvas'' ''doc'',
          CallRead ''B.canvas'', CallRead ''D.canvas'', CallModify ''D.canvas'' ''doc-a'']"
    unfolding propagation_failures_are_local [OF g', of exampleHost 7 "\<lambda>k. 7",
                THEN conjunct2, THEN conjunct2, THEN conjunct2, THEN conjunct2, THEN mp, OF i']
    by (rule e)
  from 1 2 3 4 5 6 show ?thesis
    by (simp add: brokenMiddle_def exampleService_def exampleVault_def deleteA_def exampleHost_def
          handleDeleteNode_def exampleCanvas_def)
qed

section \<open>Properties of derivation\<close>

lemma vault_read_entries:
  "vault_read v p = (r, v') \<Longrightarrow>
     entries v' = entries v \<and> createFails v' = createFails v \<and> readFails v' = readFails v
     \<and> modifyFails v' = modifyFails v"
  by (auto simp: vault_read_def Let_def split: option.splits TAbstractFile.splits if_splits)

lemma vault_read_Some:
  "vault_read v p = (Some content, v') \<longleftrightarrow>
     entries v p = Some (TFile content) \<and> \<not> readFails v p
     \<and> v' = v\<lparr>journal := journal v @ [CallRead p]\<rparr>"
  by (auto simp: vault_read_def Let_def split: option.splits TAbstractFile.splits if_splits)

lemma vault_read_None:
  "vault_read v p = (None, v') \<longleftrightarrow>
     (\<not> isTFile v p \<or> readFails v p) \<and> v' = v\<lparr>journal := journal v @ [CallRead p]\<rparr>"
  by (auto simp: vault_read_def isTFile_def Let_def split: option.splits TAbstractFile.splits if_splits)

lemma vault_create_False:
  "vault_create v p content = (False, v') \<longleftrightarrow>
     (entries v p \<noteq> None \<or> createFails v p)
     \<and> v' = v\<lparr>journal := journal v @ [CallCreate p content]\<rparr>"
  by (auto simp: vault_create_def Let_def)

lemma vault_create_True:
  "vault_create v p content = (True, v') \<longleftrightarrow>
     entries v p = None \<and> \<not> createFails v p
     \<and> v' = v\<lparr>journal := journal v @ [CallCreate p content],
               entries := (entries v)(p \<mapsto> TFile content)\<rparr>"
  by (auto simp: vault_create_def Let_def)

lemma updateCanvasGroup_vault [simp]:
  "vault (updateCanvasGroup now src p s) = vault s"
  by (simp add: updateCanvasGroup_def Let_def split: option.splits)

text \<open>
  C4. When \<^verbatim>\<open>createNewCanvasView\<close> fails, the groups and the entries of the vault are
  as before. It fails when the source path is not a file, when the source cannot be
  read, and when the path computed for the new file is taken already or the host
  refuses to create it. When it succeeds, the path of the new file was free before, and
  the vault has gained that one file, with the content of the source.
\<close>

theorem failed_derivation_changes_nothing:
  "(\<forall>e. fst (createNewCanvasView host now src s) = Inl e \<longrightarrow>
        canvasGroups (snd (createNewCanvasView host now src s)) = canvasGroups s
        \<and> entries (vault (snd (createNewCanvasView host now src s))) = entries (vault s))
   \<and> (\<not> isTFile (vault s) src \<longrightarrow> fst (createNewCanvasView host now src s) = Inl NotFound)
   \<and> (isTFile (vault s) src \<and> readFails (vault s) src \<longrightarrow>
        fst (createNewCanvasView host now src s) = Inl ReadError)
   \<and> (\<forall>content newFileName.
        entries (vault s) src = Some (TFile content) \<and> \<not> readFails (vault s) src
        \<and> jsonValid host content
        \<and> newFileNameFor host (canvasGroups s) src = Inr newFileName
        \<and> (entries (vault s) (replace src (fileName src) newFileName) \<noteq> None
           \<or> createFails (vault s) (replace src (fileName src) newFileName))
        \<longrightarrow> fst (createNewCanvasView host now src s) = Inl CreateError)
   \<and> (\<forall>p. fst (createNewCanvasView host now src s) = Inr p \<longrightarrow>
        entries (vault s) p = None
        \<and> (\<exists>content. entries (vault s) src = Some (TFile content)
             \<and> entries (vault (snd (createNewCanvasView host now src s)))
                 = (entries (vault s))(p \<mapsto> TFile content)))"
proof -
  have 1: "canvasGroups (snd (createNewCanvasView host now src s)) = canvasGroups s
        \<and> entries (vault (snd (createNewCanvasView host now src s))) = entries (vault s)"
    if "fst (createNewCanvasView host now src s) = Inl e" for e
    using that
    by (auto simp: createNewCanvasView_def Let_def vault_read_Some vault_read_None
          vault_create_False vault_create_True
          split: if_splits prod.splits option.splits sum.splits bool.splits)
  have 2: "\<not> isTFile (vault s) src \<Longrightarrow> fst (createNewCanvasView host now src s) = Inl NotFound"
    by (simp add: createNewCanvasView_def)
  have 3: "isTFile (vault s) src \<and> readFails (vault s) src \<Longrightarrow>
        fst (createNewCanvasView host now src s) = Inl ReadError"
    by (auto simp: createNewCanvasView_def vault_read_Some vault_read_None
          split: prod.splits option.splits)
  have 4: "fst (createNewCanvasView host now src s) = Inl CreateError"
    if "entries (vault s) src = Some (TFile content)" "\<not> readFails (vault s) src"
       "jsonValid host content" "newFileNameFor host (canvasGroups s) src = Inr newFileName"
       "entries (vault s) (replace src (fileName src) newFileName) \<noteq> None
           \<or> createFails (vault s) (replace src (fileName src) newFileName)"
    for content newFileName
    using that
    by (auto simp: createNewCanvasView_def Let_def isTFile_def vault_read_Some vault_read_None
          vault_create_False vault_create_True
          split: prod.splits option.splits bool.splits)
  have 5: "entries (vault s) p = None
        \<and> (\<exists>content. entries (vault s) src = Some (TFile content)
             \<and> entries (vault (snd (createNewCanvasView host now src s)))
                 = (entries (vault s))(p \<mapsto> TFile content))"
    if "fst (createNewCanvasView host now src s) = Inr p" for p
    using that
    by (auto simp: createNewCanvasView_def Let_def vault_read_Some vault_read_None
          vault_create_False vault_create_True
          split: if_splits prod.splits option.splits sum.splits bool.splits)
  from 1 2 3 4 5 show ?thesis by blast
qed

text \<open>
  In the scenario, deriving from \<^verbatim>\<open>A.canvas\<close> collides with \<^verbatim>\<open>AC1.canvas\<close>; a missing
  source and an unreadable source fail too; deriving from \<^verbatim>\<open>AC1.canvas\<close> succeeds.
\<close>

theorem failed_derivation_changes_nothing_witness:
  "fst (createNewCanvasView exampleHost 5 ''A.canvas'' scenario) = Inl CreateError
   \<and> canvasGroups (snd (createNewCanvasView exampleHost 5 ''A.canvas'' scenario))
       = canvasGroups scenario
   \<and> entries (vault (snd (createNewCanvasView exampleHost 5 ''A.canvas'' scenario)))
       = entries (vault scenario)
   \<and> fst (createNewCanvasView exampleHost 5 ''Missing.canvas'' scenario) = Inl NotFound
   \<and> fst (createNewCanvasView exampleHost 5 ''Notes.canvas'' scenarioLocked) = Inl ReadError
   \<and> entries (vault scenario) ''AC4.canvas'' = None
   \<and> entries (vault (snd (createNewCanvasView exampleHost 5 ''AC1.canvas'' scenario)))
       = (entries (vault scenario))(''AC4.canvas'' \<mapsto> TFile ''doc'')"
proof -
  note T = failed_derivation_changes_nothing
  have c: "entries (vault scenario) ''A.canvas'' = Some (TFile ''doc'')
      \<and> \<not> readFails (vault scenario) ''A.canvas'' \<and> jsonValid exampleHost ''doc''
      \<and> newFileNameFor exampleHost (canvasGroups scenario) ''A.canvas'' = Inr ''AC1.canvas''
      \<and> (entries (vault scenario) (replace ''A.canvas'' (fileName ''A.canvas'') ''AC1.canvas'') \<noteq> None
          \<or> createFails (vault scenario) (replace ''A.canvas'' (fileName ''A.canvas'') ''AC1.canvas''))"
    by code_simp
  have 1: "fst (createNewCanvasView exampleHost 5 ''A.canvas'' scenario) = Inl CreateError"
    using T [of exampleHost 5 "''A.canvas''" scenario, THEN conjunct2, THEN conjunct2,
             THEN conjunct2, THEN conjunct1, rule_format, OF c] .
  have 2: "canvasGroups (snd (createNewCanvasView exampleHost 5 ''A.canvas'' scenario))
             = canvasGroups scenario
        \<and> entries (vault (snd (createNewCanvasView exampleHost 5 ''A.canvas'' scenario)))
             = entries (vault scenario)"
    using T [of exampleHost 5 "''A.canvas''" scenario, THEN conjunct1, rule_format, OF 1] .
  have n: "\<not> isTFile (vault scenario) ''Missing.canvas''"
    by code_simp
  have 3: "fst (createNewCanvasView exampleHost 5 ''Missing.canvas'' scenario) = Inl NotFound"
    using T [of exampleHost 5 "''Missing.canvas''" scenario, THEN conjunct2, THEN conjunct1,
             rule_format, OF n] .
  have r: "isTFile (vault scenarioLocked) ''Notes.canvas''
           \<and> readFails (vault scenarioLocked) ''Notes.canvas''"
    by code_simp
  have 4: "fst (createNewCanvasView exampleHost 5 ''Notes.canvas'' scenarioLocked) = Inl ReadError"
    using T [of exampleHost 5 "''Notes.canvas''" scenarioLocked, THEN conjunct2, THEN conjunct2,
             THEN conjunct1, rule_format, OF r] .
  have ok: "fst (createNewCanvasView exampleHost 5 ''AC1.canvas'' scenario) = Inr ''AC4.canvas''"
    by code_simp
  have e: "entries (vault scenario) ''AC1.canvas'' = Some (TFile ''doc'')"
    by code_simp
  have 5: "entries (vault scenario) ''AC4.canvas'' = None
     \<and> entries (vault (snd (createNewCanvasView exampleHost 5 ''AC1.canvas'' scenario)))
         = (entries (vault scenario))(''AC4.canvas'' \<mapsto> TFile ''doc'')"
    using T [of exampleHost 5 "''AC1.canvas''" scenario, THEN conjunct2, THEN conjunct2,
             THEN conjunct2, THEN conjunct2, rule_format, OF ok] e
    by auto
  from 1 2 3 4 5 show ?thesis by simp
qed

text \<open>
  C3. Let \<^verbatim>\<open>createNewCanvasView\<close> succeed with the new path \<open>p\<close>. If the source was in
  a group, the number of groups is as before, that group now holds \<open>p\<close> and, apart from
  \<open>p\<close>, the files it held, and every other group is as before. If the source was in no
  group, one group has been added at the end: source and \<open>p\<close>, with the current time.
\<close>

theorem derivation_group_closure:
  assumes "createNewCanvasView host now src s = (Inr p, s')"
  shows "(\<forall>i. findGroupForFile (canvasGroups s) src = Some i \<longrightarrow>
            length (canvasGroups s') = length (canvasGroups s)
            \<and> p \<in> set (files (canvasGroups s' ! i))
            \<and> set (files (canvasGroups s' ! i)) = insert p (set (files (canvasGroups s ! i)))
            \<and> (\<forall>j. j \<noteq> i \<longrightarrow> canvasGroups s' ! j = canvasGroups s ! j))
       \<and> (findGroupForFile (canvasGroups s) src = None \<longrightarrow>
            canvasGroups s' = canvasGroups s @ [\<lparr>files = [src, p], lastSync = now\<rparr>])"
proof -
  have U: "canvasGroups (updateCanvasGroup now src q (s\<lparr>vault := v\<rparr>))
           = canvasGroups (updateCanvasGroup now src q s)" for v q
    by (simp add: updateCanvasGroup_def Let_def split: option.splits)
  have G: "canvasGroups s' = canvasGroups (updateCanvasGroup now src p s)"
    using assms
    by (auto simp: createNewCanvasView_def Let_def U
          split: if_splits prod.splits option.splits sum.splits bool.splits)
  have A: "length (canvasGroups s') = length (canvasGroups s)
            \<and> p \<in> set (files (canvasGroups s' ! i))
            \<and> set (files (canvasGroups s' ! i)) = insert p (set (files (canvasGroups s ! i)))
            \<and> (\<forall>j. j \<noteq> i \<longrightarrow> canvasGroups s' ! j = canvasGroups s ! j)"
    if "findGroupForFile (canvasGroups s) src = Some i" for i
    using that findGroupForFile_Some[OF that]
    by (auto simp: G updateCanvasGroup_def Let_def)
  have B: "findGroupForFile (canvasGroups s) src = None \<Longrightarrow>
            canvasGroups s' = canvasGroups s @ [\<lparr>files = [src, p], lastSync = now\<rparr>]"
    by (simp add: G updateCanvasGroup_def)
  from A B show ?thesis by blast
qed

text \<open>
  In the scenario, deriving from \<^verbatim>\<open>AC1.canvas\<close> extends the one group, and deriving
  from \<^verbatim>\<open>Notes.canvas\<close> adds a second group.
\<close>

theorem derivation_group_closure_witness:
  "length (canvasGroups (snd (createNewCanvasView exampleHost 5 ''AC1.canvas'' scenario))) = 1
   \<and> ''AC4.canvas''
        \<in> set (files (canvasGroups (snd (createNewCanvasView exampleHost 5 ''AC1.canvas'' scenario)) ! 0))
   \<and> canvasGroups (snd (createNewCanvasView exampleHost 5 ''Notes.canvas'' scenario))
       = canvasGroups scenario @ [\<lparr>files = [''Notes.canvas'', ''NotesC1.canvas''], lastSync = 5\<rparr>]"
proof -
  have "fst (createNewCanvasView exampleHost 5 ''AC1.canvas'' scenario) = Inr ''AC4.canvas''"
    by code_simp
  then have r1: "createNewCanvasView exampleHost 5 ''AC1.canvas'' scenario
      = (Inr ''AC4.canvas'', snd (createNewCanvasView exampleHost 5 ''AC1.canvas'' scenario))"
    by (simp add: prod_eq_iff)
  have g1: "findGroupForFile (canvasGroups scenario) ''AC1.canvas'' = Some 0"
    by code_simp
  have "fst (createNewCanvasView exampleHost 5 ''Notes.canvas'' scenario) = Inr ''NotesC1.canvas''"
    by code_simp
  then have r2: "createNewCanvasView exampleHost 5 ''Notes.canvas'' scenario
      = (Inr ''NotesC1.canvas'', snd (createNewCanvasView exampleHost 5 ''Notes.canvas'' scenario))"
    by (simp add: prod_eq_iff)
  have g2: "findGroupForFile (canvasGroups scenario) ''Notes.canvas'' = None"
    by code_simp
  have l: "length (canvasGroups scenario) = 1"
    by code_simp
  from derivation_group_closure [OF r1] derivation_group_closure [OF r2] g1 g2 l
  show ?thesis by simp
qed

text \<open>
  C1 says that deriving from any file of a group of versioned files gives the highest
  version of the group plus one. The code does not, where the common prefix holds a
  character that the regular expression reads as syntax. Both files of the group are
  versioned, with prefix \<^verbatim>\<open>A+\<close> and versions 1 and 3. The pattern built from the
  prefix, \<^verbatim>\<open>^A+C(\d+)\.canvas$\<close>, matches neither name, so the loop finds no version,
  and deriving from the first file gives version 2, not 4, while deriving from the
  second file gives 4. With versions 1 and 2 in the group, deriving from the first file
  runs into the second file and fails.
\<close>

theorem plus_prefix_misses_highest_version:
  "files (canvasGroups plusGroup ! 0) = [''A+C1.canvas'', ''A+C3.canvas'']
   \<and> matchVersioned ''A+C1'' = Some (''A+'', ''1'')
   \<and> compileVersionPattern ''A+'' = Returns [(CHR ''A'', True)]
   \<and> execVersionPattern [(CHR ''A'', True)] ''A+C1.canvas'' = None
   \<and> execVersionPattern [(CHR ''A'', True)] ''A+C3.canvas'' = None
   \<and> fst (createNewCanvasView exampleHost 5 ''A+C1.canvas'' plusGroup) = Inr ''A+C2.canvas''
   \<and> fst (createNewCanvasView exampleHost 5 ''A+C3.canvas'' plusGroup) = Inr ''A+C4.canvas''
   \<and> files (canvasGroups plusPair ! 0) = [''A+C1.canvas'', ''A+C2.canvas'']
   \<and> fst (createNewCanvasView exampleHost 5 ''A+C1.canvas'' plusPair) = Inl CreateError"
  by code_simp

text \<open>
  C6 says that the new file stands beside the source and is named after it. The code
  does not, where the name of the source file occurs in its path before the last
  component: \<^verbatim>\<open>replace\<close> changes the first occurrence. The new file is not in the
  folder of the source, and it is not named \<^verbatim>\<open>NotesC1.canvas\<close>.
\<close>

theorem derived_path_not_sibling:
  "fileName ''Notes.canvas.bak/Notes.canvas'' = ''Notes.canvas''
   \<and> newFileNameFor exampleHost (canvasGroups nestedName) ''Notes.canvas.bak/Notes.canvas''
       = Inr ''NotesC1.canvas''
   \<and> replace ''Notes.canvas.bak/Notes.canvas'' ''Notes.canvas'' ''NotesC1.canvas''
       = ''NotesC1.canvas.bak/Notes.canvas''
   \<and> fst (createNewCanvasView exampleHost 5 ''Notes.canvas.bak/Notes.canvas'' nestedName)
       = Inr ''NotesC1.canvas.bak/Notes.canvas''
   \<and> canvasGroups (snd (createNewCanvasView exampleHost 5 ''Notes.canvas.bak/Notes.canvas''
                          nestedName))
       = [\<lparr>files = [''Notes.canvas.bak/Notes.canvas'', ''NotesC1.canvas.bak/Notes.canvas''],
           lastSync = 5\<rparr>]"
  by code_simp

section \<open>The naming algorithm on plain names\<close>

text \<open>
  Where the name of the source occurs in its path as the last component only, its
  prefix holds no character that a regular expression reads as syntax, and the numbers
  are short, the algorithm does what its comments say. The lemmas below lead to two
  facts: \<open>derive_versioned_in_group\<close>, for a source in a group whose files all have
  versioned names with the prefix of the source, and \<open>derive_unversioned\<close>, for a
  source whose base name is not versioned.
\<close>

lemma splitFirst_at_end:
  "pat \<noteq> [] \<Longrightarrow> hd pat \<notin> set xs \<Longrightarrow> splitFirst pat (xs @ pat) = Some (xs, [])"
proof (induction xs)
  case Nil
  then show ?case by (cases pat) auto
next
  case (Cons x xs)
  then have "\<not> prefix pat (x # xs @ pat)"
    by (cases pat) auto
  with Cons show ?case by simp
qed

lemma getSubstitution_no_dollar:
  "CHR ''$'' \<notin> set rep \<Longrightarrow> getSubstitution m b a rep = rep"
  by (induction m b a rep rule: getSubstitution.induct) auto

lemma replace_suffix:
  "pat \<noteq> [] \<Longrightarrow> hd pat \<notin> set xs \<Longrightarrow> CHR ''$'' \<notin> set rep \<Longrightarrow>
   replace (xs @ pat) pat rep = xs @ rep"
  by (simp add: replace_def splitFirst_at_end getSubstitution_no_dollar)

lemma takeWhile_run:
  "\<forall>c \<in> set xs. P c \<Longrightarrow> \<not> P y \<Longrightarrow> takeWhile P (xs @ y # ys) = xs"
  by (induction xs) auto

lemma dropWhile_run:
  "\<forall>c \<in> set xs. P c \<Longrightarrow> \<not> P y \<Longrightarrow> dropWhile P (xs @ y # ys) = y # ys"
  by (induction xs) auto

lemma isDigit_C [simp]: "\<not> isDigit CHR ''C''"
  by (simp add: isDigit_def)

lemma matchVersioned_versioned:
  assumes "p \<noteq> []" "\<forall>c \<in> set p. \<not> isLineTerminator c" "ds \<noteq> []" "\<forall>c \<in> set ds. isDigit c"
  shows "matchVersioned (p @ ''C'' @ ds) = Some (p, ds)"
proof -
  have r: "rev (p @ ''C'' @ ds) = rev ds @ CHR ''C'' # rev p" by simp
  have t: "takeWhile isDigit (rev ds @ CHR ''C'' # rev p) = rev ds"
    using assms(4) by (simp add: takeWhile_run)
  have d: "dropWhile isDigit (rev ds @ CHR ''C'' # rev p) = CHR ''C'' # rev p"
    using assms(4) by (simp add: dropWhile_run)
  have l: "takeWhile (\<lambda>c. \<not> isLineTerminator c) (rev p) = rev p"
    using assms(2) by (simp add: takeWhile_eq_all_conv)
  show ?thesis
    unfolding matchVersioned_def r using assms(1,3)
    by (simp add: t d l Let_def)
qed

lemma parseItems_plain:
  "\<forall>c \<in> set p. c \<noteq> CHR ''+'' \<Longrightarrow> parseItems p = Some (map (\<lambda>c. (c, False)) p)"
  by (induction p rule: parseItems.induct) auto

lemma compileVersionPattern_plain:
  "\<forall>c \<in> set p. regexPlain c \<Longrightarrow>
   compileVersionPattern p = Returns (map (\<lambda>c. (c, False)) p)"
proof -
  assume a: "\<forall>c \<in> set p. regexPlain c"
  then have "\<forall>c \<in> set p. c \<noteq> CHR ''+''" by (auto simp: regexPlain_def)
  with a show ?thesis
    by (auto simp: compileVersionPattern_def parseItems_plain)
qed

lemma matchItems_literal: "matchItems (map (\<lambda>c. (c, False)) p) s \<longleftrightarrow> s = p"
proof (induction p arbitrary: s)
  case Nil then show ?case by simp
next
  case (Cons c p)
  then show ?case by (cases s) auto
qed

lemma execVersionPattern_literal:
  assumes "ds \<noteq> []" "\<forall>c \<in> set ds. isDigit c"
  shows "execVersionPattern (map (\<lambda>c. (c, False)) p) (p @ ''C'' @ ds @ ''.canvas'') = Some ds"
proof -
  have s: "suffix ''.canvas'' (p @ ''C'' @ ds @ ''.canvas'')"
    by (metis append.assoc suffixI)
  have k: "take (length (p @ ''C'' @ ds @ ''.canvas'') - 7) (p @ ''C'' @ ds @ ''.canvas'')
           = p @ ''C'' @ ds"
    by simp
  have r: "rev (p @ ''C'' @ ds) = rev ds @ CHR ''C'' # rev p" by simp
  have t: "takeWhile isDigit (rev ds @ CHR ''C'' # rev p) = rev ds"
    using assms(2) by (simp add: takeWhile_run)
  have d: "dropWhile isDigit (rev ds @ CHR ''C'' # rev p) = CHR ''C'' # rev p"
    using assms(2) by (simp add: dropWhile_run)
  show ?thesis
    unfolding execVersionPattern_def k r using s assms(1)
    by (simp add: t d Let_def matchItems_literal del: append.simps append_assoc)
qed

lemma foldl_max_Max: "foldl max (v::nat) xs = Max (insert v (set xs))"
proof (induction xs arbitrary: v)
  case Nil then show ?case by simp
next
  case (Cons x xs)
  have "Max (insert (max v x) (set xs)) = Max (insert v (insert x (set xs)))"
    by (cases "set xs = {}") (auto simp: max.assoc)
  with Cons show ?case by simp
qed

lemma parseInt_short: "length ds \<le> 15 \<Longrightarrow> parseInt ds = Returns (decimal ds)"
  by (simp add: parseInt_def)

lemma scanVersions_plain:
  "map fileName fs = map (\<lambda>ds. p @ ''C'' @ ds @ ''.canvas'') dss \<Longrightarrow>
   \<forall>ds \<in> set dss. ds \<noteq> [] \<and> (\<forall>c \<in> set ds. isDigit c) \<and> length ds \<le> 15 \<Longrightarrow>
   scanVersions (map (\<lambda>c. (c, False)) p) fs v = Returns (foldl max v (map decimal dss))"
proof (induction fs arbitrary: dss v)
  case Nil
  then show ?case by simp
next
  case (Cons f fs)
  from Cons.prems(1) obtain ds rest where dss: "dss = ds # rest"
    and f: "fileName f = p @ ''C'' @ ds @ ''.canvas''"
    and r: "map fileName fs = map (\<lambda>ds. p @ ''C'' @ ds @ ''.canvas'') rest"
    by (cases dss) auto
  from Cons.prems(2) dss have d: "ds \<noteq> []" "\<forall>c \<in> set ds. isDigit c" "length ds \<le> 15"
    and rr: "\<forall>ds \<in> set rest. ds \<noteq> [] \<and> (\<forall>c \<in> set ds. isDigit c) \<and> length ds \<le> 15"
    by auto
  have "execVersionPattern (map (\<lambda>c. (c, False)) p) (fileName f) = Some ds"
    unfolding f using d(1,2) by (rule execVersionPattern_literal)
  then show ?case
    using Cons.IH[OF r rr] d(3) dss by (simp add: parseInt_short)
qed

lemma regexPlain_not_dot: "regexPlain c \<Longrightarrow> c \<noteq> CHR ''.''"
  by (simp add: regexPlain_def)

lemma regexPlain_not_dollar: "regexPlain c \<Longrightarrow> c \<noteq> CHR ''$''"
  by (simp add: regexPlain_def)

lemma isDigit_not_dot: "isDigit c \<Longrightarrow> c \<noteq> CHR ''.''"
  by (auto simp: isDigit_def)

lemma isDigit_not_dollar: "isDigit c \<Longrightarrow> c \<noteq> CHR ''$''"
  by (auto simp: isDigit_def)

lemma plain_prefix_next_version:
  assumes g: "findGroupForFile groups src = Some i"
      and names: "map fileName (files (groups ! i)) = map (\<lambda>ds. p @ ''C'' @ ds @ ''.canvas'') dss"
      and digits: "\<forall>ds \<in> set dss. ds \<noteq> [] \<and> (\<forall>c \<in> set ds. isDigit c) \<and> length ds \<le> 15"
      and plain: "p \<noteq> []" "\<forall>c \<in> set p. regexPlain c \<and> \<not> isLineTerminator c"
  shows "newFileNameFor host groups src
         = Inr (p @ ''C'' @ showNat (Suc (Max (set (map decimal dss)))) @ ''.canvas'')"
proof -
  from findGroupForFile_Some[OF g] have "fileName src \<in> set (map fileName (files (groups ! i)))"
    by simp
  with names obtain ds0 where m: "ds0 \<in> set dss" and n: "fileName src = p @ ''C'' @ ds0 @ ''.canvas''"
    by auto
  from digits m have d: "ds0 \<noteq> []" "\<forall>c \<in> set ds0. isDigit c" "length ds0 \<le> 15" by auto
  have nodot: "CHR ''.'' \<notin> set (p @ ''C'' @ ds0)"
    using plain(2) d(2) by (auto dest: regexPlain_not_dot isDigit_not_dot)
  have b: "replace (fileName src) ''.canvas'' [] = p @ ''C'' @ ds0"
    using replace_suffix[of "''.canvas''" "p @ ''C'' @ ds0" "[]"] nodot
    by (simp add: n)
  have mv: "matchVersioned (p @ ''C'' @ ds0) = Some (p, ds0)"
    using plain d by (intro matchVersioned_versioned) auto
  have cp: "compileVersionPattern p = Returns (map (\<lambda>c. (c, False)) p)"
    using plain(2) by (intro compileVersionPattern_plain) auto
  have sc: "scanVersions (map (\<lambda>c. (c, False)) p) (files (groups ! i)) (decimal ds0)
            = Returns (Max (set (map decimal dss)))"
  proof -
    have "insert (decimal ds0) (set (map decimal dss)) = set (map decimal dss)"
      using m by auto
    then show ?thesis
      by (simp add: scanVersions_plain[OF names digits] foldl_max_Max del: set_map)
  qed
  have nv: "nextVersion groups src p ds0 = Returns (Suc (Max (set (map decimal dss))))"
    by (simp add: nextVersion_def parseInt_short[OF d(3)] g cp sc del: set_map)
  show ?thesis
    using mv by (simp add: newFileNameFor_def b newVersionText_def nv Let_def del: set_map)
qed

lemma splitFirst_sound: "splitFirst pat s = Some (b, a) \<Longrightarrow> s = b @ pat @ a"
proof (induction s arbitrary: b)
  case Nil
  then show ?case by (auto split: if_splits)
next
  case (Cons c cs)
  show ?case
  proof (cases "prefix pat (c # cs)")
    case True
    with Cons.prems show ?thesis
      by (auto simp: prefix_def)
  next
    case False
    with Cons.prems obtain b' where "splitFirst pat cs = Some (b', a)" "b = c # b'"
      by auto
    with Cons.IH show ?thesis by simp
  qed
qed

lemma splitFirst_finds: "splitFirst pat (xs @ pat @ ys) \<noteq> None"
proof (induction xs)
  case Nil
  show ?case
  proof (cases "pat @ ys")
    case Nil
    then show ?thesis by simp
  next
    case (Cons c cs)
    have "prefix pat (pat @ ys)" by simp
    then have "prefix pat (c # cs)" by (simp only: Cons)
    then show ?thesis by (simp add: Cons)
  qed
next
  case (Cons x xs)
  then show ?case by auto
qed

lemma replace_only_occurrence:
  assumes "\<forall>front back. xs @ pat = front @ pat @ back \<longrightarrow> front = xs"
      and "CHR ''$'' \<notin> set rep"
  shows "replace (xs @ pat) pat rep = xs @ rep"
proof -
  from splitFirst_finds[of pat xs "[]"] obtain b a where s: "splitFirst pat (xs @ pat) = Some (b, a)"
    by auto
  from splitFirst_sound[OF s] assms(1) have "b = xs" by blast
  with splitFirst_sound[OF s] have "a = []" by simp
  with s \<open>b = xs\<close> assms(2) show ?thesis
    by (simp add: replace_def getSubstitution_no_dollar)
qed

lemma replace_first_at:
  "splitFirst pat s = Some (b, a) \<Longrightarrow> CHR ''$'' \<notin> set rep \<Longrightarrow> replace s pat rep = b @ rep @ a"
  by (simp add: replace_def getSubstitution_no_dollar)

lemma fileName_last_component:
  assumes "CHR ''/'' \<notin> set name" "dir = [] \<or> last dir = CHR ''/''"
  shows "fileName (dir @ name) = name"
proof (cases "dir = []")
  case True
  have t: "takeWhile (\<lambda>c. c \<noteq> CHR ''/'') (rev name) = rev name"
    using assms(1) by (auto simp: takeWhile_eq_all_conv)
  show ?thesis
    by (simp add: fileName_def True t)
next
  case False
  with assms(2) obtain d where d: "dir = d @ ''/''"
    by (metis append_butlast_last_id)
  have "takeWhile (\<lambda>c. c \<noteq> CHR ''/'') (rev name @ CHR ''/'' # rev d) = rev name"
    using assms(1) by (intro takeWhile_run) auto
  then show ?thesis by (simp add: fileName_def d)
qed

lemma digitChar_isDigit: "d < 10 \<Longrightarrow> isDigit (digitChar d)"
proof -
  assume "d < 10"
  then have "d \<in> {0, 1, 2, 3, 4, 5, 6, 7, 8, 9}" by auto
  then show ?thesis
    by (auto simp: digitChar_def isDigit_def)
qed

lemma showNat_digits: "\<forall>c \<in> set (showNat n). isDigit c"
proof (induction n rule: showNat.induct)
  case (1 n)
  show ?case
  proof (cases "n < 10")
    case True
    then show ?thesis by (simp add: showNat.simps[of n] digitChar_isDigit)
  next
    case False
    with 1 show ?thesis by (simp add: showNat.simps[of n] digitChar_isDigit)
  qed
qed

lemma derive_versioned_in_group:
  assumes src: "src = dir @ name" "CHR ''/'' \<notin> set name" "dir = [] \<or> last dir = CHR ''/''"
      and only: "splitFirst name src = Some (dir, [])"
      and g: "findGroupForFile (canvasGroups s) src = Some i"
      and names: "map fileName (files (canvasGroups s ! i))
                  = map (\<lambda>ds. p @ ''C'' @ ds @ ''.canvas'') dss"
      and digits: "\<forall>ds \<in> set dss. ds \<noteq> [] \<and> (\<forall>c \<in> set ds. isDigit c) \<and> length ds \<le> 15"
      and plain: "p \<noteq> []" "\<forall>c \<in> set p. regexPlain c \<and> \<not> isLineTerminator c"
      and readable: "entries (vault s) src = Some (TFile content)" "\<not> readFails (vault s) src"
                "jsonValid host content"
      and free: "entries (vault s) (dir @ p @ ''C'' @ showNat (Suc (Max (set (map decimal dss)))) @ ''.canvas'') = None"
                "\<not> createFails (vault s) (dir @ p @ ''C'' @ showNat (Suc (Max (set (map decimal dss)))) @ ''.canvas'')"
  shows "fst (createNewCanvasView host now src s)
         = Inr (dir @ p @ ''C'' @ showNat (Suc (Max (set (map decimal dss)))) @ ''.canvas'')"
proof -
  let ?new = "p @ ''C'' @ showNat (Suc (Max (set (map decimal dss)))) @ ''.canvas''"
  have n: "newFileNameFor host (canvasGroups s) src = Inr ?new"
    by (rule plain_prefix_next_version[OF g names digits plain])
  have fn: "fileName src = name"
    unfolding src(1) by (rule fileName_last_component[OF src(2,3)])
  have nd: "CHR ''$'' \<notin> set ?new"
    using plain(2) showNat_digits[of "Suc (Max (set (map decimal dss)))"]
    by (auto dest: regexPlain_not_dollar isDigit_not_dollar)
  have rp: "replace src (fileName src) ?new = dir @ ?new"
    unfolding fn using replace_first_at[OF only nd] by simp
  have tf: "isTFile (vault s) src" using readable(1) by (simp add: isTFile_def)
  have rd: "vault_read (vault s) src
            = (Some content, (vault s)\<lparr>journal := journal (vault s) @ [CallRead src]\<rparr>)"
    using readable by (simp add: vault_read_Some)
  show ?thesis
    using free rp
    by (simp add: createNewCanvasView_def tf rd readable(3) n Let_def vault_create_def
             del: set_map)
qed

lemma derive_unversioned:
  assumes src: "src = dir @ base @ ''.canvas''" "CHR ''/'' \<notin> set base" "dir = [] \<or> last dir = CHR ''/''"
      and only: "splitFirst (base @ ''.canvas'') src = Some (dir, [])"
      and suffix_only: "splitFirst ''.canvas'' (base @ ''.canvas'') = Some (base, [])"
      and plainName: "matchVersioned base = None" "CHR ''$'' \<notin> set base"
      and readable: "entries (vault s) src = Some (TFile content)" "\<not> readFails (vault s) src"
                "jsonValid host content"
      and free: "entries (vault s) (dir @ base @ ''C1.canvas'') = None"
                "\<not> createFails (vault s) (dir @ base @ ''C1.canvas'')"
  shows "fst (createNewCanvasView host now src s) = Inr (dir @ base @ ''C1.canvas'')"
proof -
  have fn: "fileName src = base @ ''.canvas''"
    using fileName_last_component[of "base @ ''.canvas''" dir] src by simp
  have b: "replace (base @ ''.canvas'') ''.canvas'' [] = base"
    using replace_first_at[OF suffix_only, of "[]"] by simp
  have n: "newFileNameFor host (canvasGroups s) src = Inr (base @ ''C1.canvas'')"
    by (simp add: newFileNameFor_def fn b plainName(1) Let_def del: append_assoc)
  have nd: "CHR ''$'' \<notin> set (base @ ''C1.canvas'')"
    using plainName(2) by simp
  have rp: "replace src (fileName src) (base @ ''C1.canvas'') = dir @ base @ ''C1.canvas''"
    unfolding fn using replace_first_at[OF only nd] by simp
  have tf: "isTFile (vault s) src" using readable(1) by (simp add: isTFile_def)
  have rd: "vault_read (vault s) src
            = (Some content, (vault s)\<lparr>journal := journal (vault s) @ [CallRead src]\<rparr>)"
    using readable by (simp add: vault_read_Some)
  show ?thesis
    using free rp
    by (simp add: createNewCanvasView_def tf rd readable(3) n Let_def vault_create_def)
qed

text \<open>Both facts at work, on the group of two plain versioned files and on the scenario.\<close>

lemma derive_versioned_in_group_example:
  "fst (createNewCanvasView exampleHost 5 ''maps/AC1.canvas'' plainGroup) = Inr ''maps/AC4.canvas''
   \<and> fst (createNewCanvasView exampleHost 5 ''maps/AC3.canvas'' plainGroup) = Inr ''maps/AC4.canvas''"
proof -
  have v: "showNat (Suc (max (decimal ''1'') (decimal ''3''))) = ''4''"
    by code_simp
  have g1: "findGroupForFile (canvasGroups plainGroup) ''maps/AC1.canvas'' = Some 0"
    and g3: "findGroupForFile (canvasGroups plainGroup) ''maps/AC3.canvas'' = Some 0"
    by code_simp+
  have names: "map fileName (files (canvasGroups plainGroup ! 0))
               = map (\<lambda>ds. ''A'' @ ''C'' @ ds @ ''.canvas'') [''1'', ''3'']"
    by code_simp
  have digits: "\<forall>ds \<in> set [''1'', ''3'']. ds \<noteq> [] \<and> (\<forall>c \<in> set ds. isDigit c) \<and> length ds \<le> 15"
    by (simp add: isDigit_def)
  have plain: "''A'' \<noteq> []" "\<forall>c \<in> set ''A''. regexPlain c \<and> \<not> isLineTerminator c"
    by (simp_all add: regexPlain_def isLineTerminator_def)
  have f: "entries (vault plainGroup) ''maps/AC1.canvas'' = Some (TFile ''doc'')"
      "entries (vault plainGroup) ''maps/AC3.canvas'' = Some (TFile ''doc'')"
      "\<not> readFails (vault plainGroup) ''maps/AC1.canvas''"
      "\<not> readFails (vault plainGroup) ''maps/AC3.canvas''"
      "jsonValid exampleHost ''doc''"
      "entries (vault plainGroup) ''maps/AC4.canvas'' = None"
      "\<not> createFails (vault plainGroup) ''maps/AC4.canvas''"
    by code_simp+
  have 1: "fst (createNewCanvasView exampleHost 5 ''maps/AC1.canvas'' plainGroup)
           = Inr (''maps/'' @ ''A'' @ ''C'' @ showNat (Suc (Max (set (map decimal [''1'', ''3''])))) @ ''.canvas'')"
    by (rule derive_versioned_in_group[where name = "''AC1.canvas''" and content = "''doc''", OF _ _ _ _ g1 names digits plain])
       (use f in \<open>simp_all add: v\<close>)
  have 3: "fst (createNewCanvasView exampleHost 5 ''maps/AC3.canvas'' plainGroup)
           = Inr (''maps/'' @ ''A'' @ ''C'' @ showNat (Suc (Max (set (map decimal [''1'', ''3''])))) @ ''.canvas'')"
    by (rule derive_versioned_in_group[where name = "''AC3.canvas''" and content = "''doc''", OF _ _ _ _ g3 names digits plain])
       (use f in \<open>simp_all add: v\<close>)
  from 1 3 show ?thesis by (simp add: v)
qed

lemma derive_unversioned_example:
  "fst (createNewCanvasView exampleHost 5 ''Notes.canvas'' scenario) = Inr ''NotesC1.canvas''"
proof -
  have f: "entries (vault scenario) ''Notes.canvas'' = Some (TFile ''doc'')"
      "\<not> readFails (vault scenario) ''Notes.canvas''"
      "jsonValid exampleHost ''doc''"
      "entries (vault scenario) ''NotesC1.canvas'' = None"
      "\<not> createFails (vault scenario) ''NotesC1.canvas''"
      "matchVersioned ''Notes'' = None"
      "splitFirst ''Notes.canvas'' ''Notes.canvas'' = Some ([], [])"
      "splitFirst ''.canvas'' ''Notes.canvas'' = Some (''Notes'', [])"
    by code_simp+
  have "fst (createNewCanvasView exampleHost 5 ''Notes.canvas'' scenario)
        = Inr ([] @ ''Notes'' @ ''C1.canvas'')"
    by (rule derive_unversioned[where content = "''doc''"]) (use f in simp_all)
  then show ?thesis by simp
qed

section \<open>Properties of overlapping calls\<close>

text \<open>The invariant holds at rest and every step keeps it.\<close>

lemma engineInv_idle: "engineInv (idle groups v)"
  by (simp add: engineInv_def idle_def)

lemma engineInv_submit: "engineInv e \<Longrightarrow> engineInv (submit operation e)"
  by (auto simp: engineInv_def submit_def Let_def split: DrainLoop.splits)

lemma loops_cases:
  assumes "length (loops e) \<le> 1"
  obtains "loops e = []" | l where "loops e = [l]"
  using assms by (cases "loops e") auto

lemma engineInv_advance:
  assumes "engineInv e"
  shows "engineInv (advance host k now e)"
proof -
  from assms have "length (loops e) \<le> 1" by (simp add: engineInv_def)
  then show ?thesis
  proof (cases rule: loops_cases)
    case 1
    with assms show ?thesis by (simp add: advance_def)
  next
    case (2 l)
    show ?thesis
    proof (cases "k = 0")
      case False
      with 2 assms show ?thesis by (simp add: advance_def)
    next
      case True
      show ?thesis
      proof (cases l)
        case AtLoopHead
        with 2 True assms show ?thesis
          by (auto simp: advance_def engineInv_def Let_def nth_append
                split: list.splits option.splits DrainLoop.splits)
      next
        case (InOperation n op fs)
        show ?thesis
        proof (cases fs)
          case Nil
          with InOperation 2 True assms show ?thesis
            by (auto simp: advance_def engineInv_def split: DrainLoop.splits)
        next
          case (Cons f rest)
          with InOperation 2 True assms show ?thesis
            by (auto simp: advance_def engineInv_def sorted_append split: DrainLoop.splits)
        qed
      qed
    qed
  qed
qed

lemma engineInv_run: "engineInv e \<Longrightarrow> engineInv (run host e events)"
  unfolding run_def
proof (induction events arbitrary: e)
  case Nil then show ?case by simp
next
  case (Cons ev events)
  have "engineInv (step host e ev)"
    using Cons.prems by (cases ev) (simp_all add: engineInv_submit engineInv_advance)
  then show ?case using Cons.IH by simp
qed

text \<open>
  The visits depend on the files of the groups only, which no step changes, and the vault
  of the engine is at every moment the replay of the visits made.
\<close>

lemma findGroupForFile_files_cong:
  "map files gs = map files gs' \<Longrightarrow> findGroupForFile gs p = findGroupForFile gs' p"
proof (induction gs arbitrary: gs')
  case Nil
  then show ?case by simp
next
  case (Cons g gs)
  then obtain g' rest where "gs' = g' # rest" "files g = files g'" "map files gs = map files rest"
    by (cases gs') auto
  with Cons.IH[of rest] show ?case by simp
qed

lemma files_nth_cong:
  "map files gs = map files gs' \<Longrightarrow> i < length gs \<Longrightarrow> files (gs ! i) = files (gs' ! i)"
  by (metis length_map nth_map)

lemma targetsOf_cong:
  assumes "map files gs = map files gs'"
  shows "targetsOf gs op = targetsOf gs' op"
proof (cases "findGroupForFile gs (sourceFile op)")
  case None
  with findGroupForFile_files_cong[OF assms, of "sourceFile op"] show ?thesis
    by (simp add: targetsOf_def)
next
  case (Some i)
  from findGroupForFile_Some[OF Some] have "i < length gs" by simp
  from files_nth_cong[OF assms this] Some findGroupForFile_files_cong[OF assms, of "sourceFile op"]
  show ?thesis by (simp add: targetsOf_def)
qed

lemma visitsFrom_cong:
  assumes "map files gs = map files gs'"
  shows "visitsFrom gs n ops = visitsFrom gs' n ops"
proof (induction ops arbitrary: n)
  case Nil
  show ?case by simp
next
  case (Cons op ops)
  from targetsOf_cong[OF assms, of op] Cons.IH[of "Suc n"] show ?case by simp
qed

lemma visitsFrom_snoc:
  "visitsFrom groups n (ops @ [op])
   = visitsFrom groups n ops @ map (\<lambda>filePath. (n + length ops, op, filePath)) (targetsOf groups op)"
  by (induction ops arbitrary: n) simp_all

lemma replay_Nil [simp]: "replay host v [] = v"
  by (simp add: replay_def)

lemma replay_append: "replay host v (xs @ ys) = replay host (replay host v xs) ys"
  by (simp add: replay_def)

lemma replay_single [simp]: "replay host v [(n, op, f)] = syncTarget host op v f"
  by (simp add: replay_def)

lemma syncTarget_source [simp]: "syncTarget host op v (sourceFile op) = v"
  by (simp add: syncTarget_def)

lemma replayInv_idle: "replayInv host groups v (idle groups v)"
  by (simp add: replayInv_def idle_def pending_def)

lemma replayInv_submit: "replayInv host groups v e \<Longrightarrow> replayInv host groups v (submit operation e)"
  by (auto simp: replayInv_def submit_def Let_def pending_def)

lemma replayInv_advance:
  assumes I: "engineInv e" and R: "replayInv host groups v e"
  shows "replayInv host groups v (advance host k now e)"
proof -
  from I have "length (loops e) \<le> 1" by (simp add: engineInv_def)
  then show ?thesis
  proof (cases rule: loops_cases)
    case 1
    with R show ?thesis by (simp add: advance_def)
  next
    case (2 l)
    show ?thesis
    proof (cases "k = 0")
      case False
      with 2 R show ?thesis by (simp add: advance_def)
    next
      case True
      from R have F: "map files (canvasGroups (service e)) = map files groups"
        and V: "vault (service e) = replay host v (applied e)"
        and P: "applied e @ pending e = visitsFrom groups 0 (started e)"
        by (simp_all add: replayInv_def)
      show ?thesis
      proof (cases l)
        case AtLoopHead
        with 2 P have A: "applied e = visitsFrom groups 0 (started e)"
          by (simp add: pending_def)
        show ?thesis
        proof (cases "operationQueue (service e)")
          case Nil
          with AtLoopHead 2 True F V A show ?thesis
            by (simp add: advance_def replayInv_def pending_def)
        next
          case (Cons op rest)
          show ?thesis
          proof (cases "findGroupForFile (canvasGroups (service e)) (sourceFile op)")
            case None
            then have "targetsOf groups op = []"
              using targetsOf_cong[OF F, of op] by (simp add: targetsOf_def)
            with AtLoopHead 2 True F V A Cons None show ?thesis
              by (simp add: advance_def replayInv_def pending_def Let_def visitsFrom_snoc)
          next
            case (Some i)
            from findGroupForFile_Some[OF Some] have il: "i < length (canvasGroups (service e))"
              by simp
            have T: "targetsOf groups op
                     = filter (\<lambda>filePath. filePath \<noteq> sourceFile op)
                         (files (canvasGroups (service e) ! i))"
              using targetsOf_cong[OF F, of op] Some by (simp add: targetsOf_def)
            have F': "map files ((canvasGroups (service e))
                        [i := (canvasGroups (service e) ! i)\<lparr>lastSync := now\<rparr>])
                      = map files groups"
            proof -
              have "map files ((canvasGroups (service e))
                        [i := (canvasGroups (service e) ! i)\<lparr>lastSync := now\<rparr>])
                    = map files (canvasGroups (service e))"
                using il by (intro nth_equalityI) (auto simp: nth_list_update)
              with F show ?thesis by simp
            qed
            from AtLoopHead 2 True V A Cons Some F' T show ?thesis
              by (simp add: advance_def replayInv_def pending_def Let_def visitsFrom_snoc)
          qed
        qed
      next
        case (InOperation n op fs)
        show ?thesis
        proof (cases fs)
          case Nil
          with InOperation 2 True F V P show ?thesis
            by (simp add: advance_def replayInv_def pending_def)
        next
          case (Cons f rest)
          let ?e' = "advance host k now e"
          have s': "service ?e' = (service e)\<lparr>vault := syncTarget host op (vault (service e)) f\<rparr>"
            and a': "applied ?e'
                     = (if f = sourceFile op then applied e else applied e @ [(n, op, f)])"
            and l': "loops ?e' = [InOperation n op rest]"
            and t': "started ?e' = started e"
            using InOperation 2 True Cons by (simp_all add: advance_def)
          have pe: "pending e
                    = map (\<lambda>filePath. (n, op, filePath))
                        (filter (\<lambda>filePath. filePath \<noteq> sourceFile op) (f # rest))"
            using InOperation 2 Cons by (simp add: pending_def)
          have pe': "pending ?e'
                    = map (\<lambda>filePath. (n, op, filePath))
                        (filter (\<lambda>filePath. filePath \<noteq> sourceFile op) rest)"
            using l' by (simp add: pending_def)
          have 1: "map files (canvasGroups (service ?e')) = map files groups"
            using F by (simp add: s')
          have 2: "vault (service ?e') = replay host v (applied ?e')"
            using V by (simp add: s' a' replay_append)
          have 3: "applied ?e' @ pending ?e' = visitsFrom groups 0 (started ?e')"
            using P by (cases "f = sourceFile op") (simp_all add: a' pe pe' t')
          from 1 2 3 show ?thesis
            unfolding replayInv_def by blast
        qed
      qed
    qed
  qed
qed

lemma replayInv_run:
  "engineInv e \<Longrightarrow> replayInv host groups v e \<Longrightarrow> replayInv host groups v (run host e events)"
unfolding run_def
proof (induction events arbitrary: e)
  case Nil
  then show ?case by simp
next
  case (Cons ev events)
  have "engineInv (step host e ev)"
    using Cons.prems by (cases ev) (simp_all add: engineInv_submit engineInv_advance)
  moreover have "replayInv host groups v (step host e ev)"
    using Cons.prems by (cases ev) (simp_all add: replayInv_submit replayInv_advance)
  ultimately show ?case using Cons.IH by simp
qed

text \<open>The operations submitted are those of the calls, in the order of the calls.\<close>

lemma submitted_advance [simp]: "submitted (advance host k now e) = submitted e"
  by (simp add: advance_def Let_def split: DrainLoop.splits list.splits option.splits)

lemma submitted_submit [simp]: "submitted (submit operation e) = submitted e @ [operation]"
  by (simp add: submit_def Let_def)

lemma submitted_run: "submitted (run host e events) = submitted e @ submissions events"
unfolding run_def
proof (induction events arbitrary: e)
  case Nil
  then show ?case by simp
next
  case (Cons ev events)
  then show ?case by (cases ev) simp_all
qed

text \<open>
  Left alone, the activation finishes the operation it is in, then takes the queued
  operations one after the other, and leaves when the queue is empty.
\<close>

lemma run_append: "run host e (xs @ ys) = run host (run host e xs) ys"
  by (simp add: run_def)

lemma run_Cons: "run host e (x # xs) = run host (step host e x) xs"
  by (simp add: run_def)

lemma run_Nil: "run host e [] = e"
  by (simp add: run_def)

lemma finish_operation:
  "loops e = [InOperation n op fs] \<Longrightarrow>
   (let e' = run host e (replicate (Suc (length fs)) (Advance 0 now))
    in loops e' = [AtLoopHead]
       \<and> operationQueue (service e') = operationQueue (service e)
       \<and> processingOperations (service e') = processingOperations (service e)
       \<and> started e' = started e \<and> submitted e' = submitted e)"
proof (induction fs arbitrary: e)
  case Nil
  then show ?case by (simp add: run_Cons run_Nil advance_def)
next
  case (Cons f fs)
  let ?e1 = "advance host 0 now e"
  have 1: "loops ?e1 = [InOperation n op fs]"
    and 2: "operationQueue (service ?e1) = operationQueue (service e)"
      "processingOperations (service ?e1) = processingOperations (service e)"
      "started ?e1 = started e" "submitted ?e1 = submitted e"
    using Cons.prems by (simp_all add: advance_def)
  from Cons.IH[OF 1] 2 show ?case
    by (simp add: run_Cons Let_def)
qed

lemma drain_all:
  "loops e = [AtLoopHead] \<Longrightarrow>
   \<exists>n. (let e' = run host e (replicate n (Advance 0 now))
        in loops e' = [] \<and> operationQueue (service e') = []
           \<and> \<not> processingOperations (service e')
           \<and> started e' = started e @ operationQueue (service e)
           \<and> submitted e' = submitted e)"
proof (induction "operationQueue (service e)" arbitrary: e)
  case Nil
  then have "let e' = run host e (replicate 1 (Advance 0 now))
        in loops e' = [] \<and> operationQueue (service e') = []
           \<and> \<not> processingOperations (service e')
           \<and> started e' = started e @ operationQueue (service e)
           \<and> submitted e' = submitted e"
    by (simp add: run_Cons run_Nil advance_def Nil.hyps[symmetric])
  then show ?case by blast
next
  case (Cons op rest)
  let ?e1 = "advance host 0 now e"
  have q: "operationQueue (service e) = op # rest" using Cons.hyps(2) by simp
  have base: "operationQueue (service ?e1) = rest" "started ?e1 = started e @ [op]"
      "submitted ?e1 = submitted e"
    using Cons.prems q
    by (simp_all add: advance_def Let_def split: option.splits)
  have shape: "loops ?e1 = [AtLoopHead] \<or> (\<exists>n fs. loops ?e1 = [InOperation n op fs])"
    using Cons.prems q
    by (simp add: advance_def Let_def split: option.splits)
  obtain m e2 where e2: "e2 = run host ?e1 (replicate m (Advance 0 now))"
      and l2: "loops e2 = [AtLoopHead]"
      and q2: "operationQueue (service e2) = rest"
      and s2: "started e2 = started e @ [op]" "submitted e2 = submitted e"
  proof (cases "loops ?e1 = [AtLoopHead]")
    case True
    with base that[of ?e1 0] show ?thesis by (simp add: run_Nil)
  next
    case False
    with shape obtain n fs where "loops ?e1 = [InOperation n op fs]" by blast
    from finish_operation[OF this, of host now] base
      that[of "run host ?e1 (replicate (Suc (length fs)) (Advance 0 now))" "Suc (length fs)"]
    show ?thesis by (simp add: Let_def)
  qed
  from Cons.hyps(1)[of e2] l2 q2 obtain k where
    k: "let e' = run host e2 (replicate k (Advance 0 now))
        in loops e' = [] \<and> operationQueue (service e') = []
           \<and> \<not> processingOperations (service e')
           \<and> started e' = started e2 @ operationQueue (service e2)
           \<and> submitted e' = submitted e2"
    by auto
  have "run host e (replicate (Suc m + k) (Advance 0 now))
        = run host e2 (replicate k (Advance 0 now))"
    by (simp add: e2 replicate_add run_append run_Cons)
  with k q2 s2 q have "let e' = run host e (replicate (Suc m + k) (Advance 0 now))
        in loops e' = [] \<and> operationQueue (service e') = []
           \<and> \<not> processingOperations (service e')
           \<and> started e' = started e @ operationQueue (service e)
           \<and> submitted e' = submitted e"
    by (simp add: Let_def)
  then show ?case by blast
qed

lemma drain_from_anywhere:
  assumes "engineInv e"
  shows "\<exists>n. (let e' = run host e (replicate n (Advance 0 now))
        in loops e' = [] \<and> operationQueue (service e') = []
           \<and> \<not> processingOperations (service e')
           \<and> started e' = submitted e
           \<and> submitted e' = submitted e)"
proof -
  from assms have "length (loops e) \<le> 1" by (simp add: engineInv_def)
  then show ?thesis
  proof (cases rule: loops_cases)
    case 1
    with assms have "let e' = run host e (replicate 0 (Advance 0 now))
        in loops e' = [] \<and> operationQueue (service e') = []
           \<and> \<not> processingOperations (service e')
           \<and> started e' = submitted e
           \<and> submitted e' = submitted e"
      by (simp add: run_Nil engineInv_def)
    then show ?thesis by blast
  next
    case (2 l)
    obtain m e2 where e2: "e2 = run host e (replicate m (Advance 0 now))"
      and l2: "loops e2 = [AtLoopHead]"
      and q2: "operationQueue (service e2) = operationQueue (service e)"
      and s2: "started e2 = started e" "submitted e2 = submitted e"
    proof (cases l)
      case AtLoopHead
      with 2 that[of e 0] show ?thesis by (simp add: run_Nil)
    next
      case (InOperation n op fs)
      with 2 have "loops e = [InOperation n op fs]" by simp
      from finish_operation[OF this, of host now]
        that[of "run host e (replicate (Suc (length fs)) (Advance 0 now))" "Suc (length fs)"]
      show ?thesis by (simp add: Let_def)
    qed
    from drain_all[OF l2, of host now] obtain k where
      k: "let e' = run host e2 (replicate k (Advance 0 now))
        in loops e' = [] \<and> operationQueue (service e') = []
           \<and> \<not> processingOperations (service e')
           \<and> started e' = started e2 @ operationQueue (service e2)
           \<and> submitted e' = submitted e2"
      by blast
    have "run host e (replicate (m + k) (Advance 0 now))
        = run host e2 (replicate k (Advance 0 now))"
      by (simp add: e2 replicate_add run_append)
    with k q2 s2 assms have "let e' = run host e (replicate (m + k) (Advance 0 now))
        in loops e' = [] \<and> operationQueue (service e') = []
           \<and> \<not> processingOperations (service e')
           \<and> started e' = submitted e
           \<and> submitted e' = submitted e"
      by (simp add: Let_def engineInv_def)
    then show ?thesis by blast
  qed
qed

text \<open>
  With no other call in between, the steps of the engine compute what \<open>drainQueue\<close> and
  \<open>processOperation\<close> compute in one go.
\<close>

lemma finish_operation_service:
  "loops e = [InOperation n op fs] \<Longrightarrow>
   service (run host e (replicate (Suc (length fs)) (Advance 0 now)))
     = (service e)\<lparr>vault := foldl (syncTarget host op) (vault (service e)) fs\<rparr>"
proof (induction fs arbitrary: e)
  case Nil
  then show ?case by (simp add: run_Cons run_Nil advance_def)
next
  case (Cons f fs)
  let ?e1 = "advance host 0 now e"
  have 1: "loops ?e1 = [InOperation n op fs]"
    and 2: "service ?e1 = (service e)\<lparr>vault := syncTarget host op (vault (service e)) f\<rparr>"
    using Cons.prems by (simp_all add: advance_def)
  from Cons.IH[OF 1] 2 show ?case
    by (simp add: run_Cons)
qed

lemma take_operation:
  assumes "loops e = [AtLoopHead]" "operationQueue (service e) = op # rest"
  shows "\<exists>m. loops (run host e (replicate (Suc m) (Advance 0 now))) = [AtLoopHead]
            \<and> service (run host e (replicate (Suc m) (Advance 0 now)))
                = executeOperation host now op ((service e)\<lparr>operationQueue := rest\<rparr>)"
proof (cases "findGroupForFile (canvasGroups (service e)) (sourceFile op)")
  case None
  with assms have "loops (run host e (replicate (Suc 0) (Advance 0 now))) = [AtLoopHead]
            \<and> service (run host e (replicate (Suc 0) (Advance 0 now)))
                = executeOperation host now op ((service e)\<lparr>operationQueue := rest\<rparr>)"
    by (simp add: run_Cons run_Nil advance_def executeOperation_def Let_def)
  then show ?thesis by blast
next
  case (Some i)
  let ?e1 = "advance host 0 now e"
  let ?fs = "files (canvasGroups (service e) ! i)"
  have l: "loops ?e1 = [InOperation (length (started e)) op ?fs]"
    and s: "service ?e1 = (service e)\<lparr>operationQueue := rest,
               canvasGroups := (canvasGroups (service e))
                  [i := (canvasGroups (service e) ! i)\<lparr>lastSync := now\<rparr>]\<rparr>"
    using assms Some by (simp_all add: advance_def Let_def)
  have "loops (run host e (replicate (Suc (Suc (length ?fs))) (Advance 0 now))) = [AtLoopHead]
            \<and> service (run host e (replicate (Suc (Suc (length ?fs))) (Advance 0 now)))
                = executeOperation host now op ((service e)\<lparr>operationQueue := rest\<rparr>)"
    using finish_operation[OF l, of host now] finish_operation_service[OF l, of host now] s Some
    by (simp add: run_Cons executeOperation_def Let_def)
  then show ?thesis by blast
qed

lemma drain_refines:
  "loops e = [AtLoopHead] \<Longrightarrow>
   \<exists>n. loops (run host e (replicate n (Advance 0 now))) = []
      \<and> service (run host e (replicate n (Advance 0 now)))
          = (drainQueue host (\<lambda>k. now) k (service e))\<lparr>processingOperations := False\<rparr>"
proof (induction "operationQueue (service e)" arbitrary: e k)
  case Nil
  then have "loops (run host e (replicate 1 (Advance 0 now))) = []
      \<and> service (run host e (replicate 1 (Advance 0 now)))
          = (drainQueue host (\<lambda>k. now) k (service e))\<lparr>processingOperations := False\<rparr>"
    by (simp add: run_Cons run_Nil advance_def Nil.hyps[symmetric] drainQueue.simps[of _ _ _ "service e"])
  then show ?case by blast
next
  case (Cons op rest)
  have q: "operationQueue (service e) = op # rest" using Cons.hyps(2) by simp
  from take_operation[OF Cons.prems q, of host now] obtain m where
    l2: "loops (run host e (replicate (Suc m) (Advance 0 now))) = [AtLoopHead]"
    and s2: "service (run host e (replicate (Suc m) (Advance 0 now)))
                = executeOperation host now op ((service e)\<lparr>operationQueue := rest\<rparr>)"
    by blast
  let ?e2 = "run host e (replicate (Suc m) (Advance 0 now))"
  have q2: "rest = operationQueue (service ?e2)" unfolding s2 by simp
  from Cons.hyps(1)[OF q2 l2, of "Suc k"] obtain n where
    n: "loops (run host ?e2 (replicate n (Advance 0 now))) = []"
       "service (run host ?e2 (replicate n (Advance 0 now)))
          = (drainQueue host (\<lambda>k. now) (Suc k) (service ?e2))\<lparr>processingOperations := False\<rparr>"
    by blast
  have r: "run host e (replicate (Suc m + n) (Advance 0 now))
           = run host ?e2 (replicate n (Advance 0 now))"
    by (simp only: replicate_add run_append)
  have d: "drainQueue host (\<lambda>k. now) k (service e)
           = drainQueue host (\<lambda>k. now) (Suc k) (service ?e2)"
    unfolding s2 by (simp add: drainQueue.simps[of _ _ k "service e"] q)
  from n r d have "loops (run host e (replicate (Suc m + n) (Advance 0 now))) = []
      \<and> service (run host e (replicate (Suc m + n) (Advance 0 now)))
          = (drainQueue host (\<lambda>k. now) k (service e))\<lparr>processingOperations := False\<rparr>"
    by simp
  then show ?case by blast
qed

lemma processOperation_refined:
  assumes "loops e = []" "\<not> processingOperations (service e)"
  shows "\<exists>n. loops (run host e (Submit operation # replicate n (Advance 0 now))) = []
      \<and> service (run host e (Submit operation # replicate n (Advance 0 now)))
          = processOperation host (\<lambda>k. now) operation (service e)"
proof -
  let ?e1 = "submit operation e"
  have l: "loops ?e1 = [AtLoopHead]"
    and s: "service ?e1 = (service e)\<lparr>operationQueue := operationQueue (service e) @ [operation],
                                     processingOperations := True\<rparr>"
    using assms by (simp_all add: submit_def Let_def)
  from drain_refines[OF l, of host now 0] s show ?thesis
    using assms(2) by (simp add: run_Cons processOperation_def Let_def)
qed

text \<open>
  What \<^verbatim>\<open>executeOperation\<close> does to the vault is the replay of the visits of its
  operation, and a list of operations executed one after the other replays the visits
  of the list.
\<close>

lemma foldl_syncTarget_replay:
  "foldl (syncTarget host op) v fs
   = replay host v (map (\<lambda>filePath. (n, op, filePath))
                      (filter (\<lambda>filePath. filePath \<noteq> sourceFile op) fs))"
  by (induction fs arbitrary: v) (simp_all add: replay_def)

lemma executeOperation_vault:
  "vault (executeOperation host now op s)
   = replay host (vault s) (map (\<lambda>filePath. (n, op, filePath)) (targetsOf (canvasGroups s) op))"
  by (simp add: executeOperation_def targetsOf_def Let_def foldl_syncTarget_replay[of host op _ _ n]
           split: option.splits)

lemma executeOperation_files:
  "map files (canvasGroups (executeOperation host now op s)) = map files (canvasGroups s)"
proof (cases "findGroupForFile (canvasGroups s) (sourceFile op)")
  case None
  then show ?thesis by (simp add: executeOperation_def)
next
  case (Some i)
  from findGroupForFile_Some[OF Some] have "i < length (canvasGroups s)" by simp
  then have "map files ((canvasGroups s)[i := (canvasGroups s ! i)\<lparr>lastSync := now\<rparr>])
        = map files (canvasGroups s)"
    by (intro nth_equalityI) (auto simp: nth_list_update)
  with Some show ?thesis by (simp add: executeOperation_def Let_def)
qed

lemma executeAll_vault:
  "vault (executeAll host clock k ops s)
   = replay host (vault s) (visitsFrom (canvasGroups s) n ops)"
proof (induction ops arbitrary: s k n)
  case Nil
  show ?case by simp
next
  case (Cons op ops)
  let ?s1 = "executeOperation host (clock k) op s"
  have "visitsFrom (canvasGroups ?s1) (Suc n) ops = visitsFrom (canvasGroups s) (Suc n) ops"
    by (rule visitsFrom_cong) (rule executeOperation_files)
  with Cons.IH[of "Suc k" ?s1 "Suc n"] executeOperation_vault[of host "clock k" op s n]
  show ?case by (simp add: replay_append)
qed

text \<open>
  C2. Let the engine start at rest and let calls of \<^verbatim>\<open>processOperation\<close> and steps of
  the loop follow each other in any order. Then at every moment: at most one activation
  of the loop exists, and one exists exactly while the flag is set; the operations
  submitted are those of the calls, in the order of the calls, and the operations taken
  from the queue so far, followed by the queue, are the operations submitted; the visits
  to targets are in the order of the ordinals of their operations, so no target is
  visited for a later operation before the last visit for an earlier one, and the visit
  with ordinal \<open>n\<close> is on behalf of the \<open>n\<close>-th operation submitted; the visits made so
  far, followed by the visits left in the operation under way, are the visits of the
  operations taken so far, each operation visiting the targets of its group in the order
  of the group; the vault, with its record of calls, is the vault at rest after exactly
  the visits made so far, each made with the operation and the file of the visit; a call
  that arrives while the flag is set appends its operation to the queue and changes
  nothing else; and the activation, run on with no further call, takes every operation
  submitted and leaves the engine at rest with an empty queue, with all visits of the
  operations submitted made and with the vault, record of calls included, that executing
  the operations of the calls one after the other, in the order of the calls, produces
  from the vault at rest.
\<close>

theorem single_drain_loop_fifo:
  assumes "e = run host (idle groups v) events"
  shows "length (loops e) \<le> 1
   \<and> (processingOperations (service e) \<longleftrightarrow> loops e \<noteq> [])
   \<and> submitted e = submissions events
   \<and> submitted e = started e @ operationQueue (service e)
   \<and> sorted (map fst (applied e))
   \<and> (\<forall>(n, op, filePath) \<in> set (applied e). n < length (submitted e) \<and> submitted e ! n = op)
   \<and> applied e @ pending e = visitsFrom groups 0 (started e)
   \<and> vault (service e) = replay host v (applied e)
   \<and> (processingOperations (service e) \<longrightarrow>
        step host e (Submit operation)
          = e\<lparr>service := (service e)\<lparr>operationQueue := operationQueue (service e) @ [operation]\<rparr>,
              submitted := submitted e @ [operation]\<rparr>)
   \<and> (\<exists>n. let e' = run host e (replicate n (Advance 0 now))
           in loops e' = [] \<and> \<not> processingOperations (service e')
              \<and> operationQueue (service e') = []
              \<and> started e' = submitted e \<and> submitted e' = submitted e
              \<and> applied e' = visitsFrom groups 0 (submitted e)
              \<and> vault (service e')
                  = vault (executeAll host clock 0 (submissions events) (service (idle groups v))))"
proof -
  have I: "engineInv e"
    unfolding assms by (rule engineInv_run) (rule engineInv_idle)
  have R: "replayInv host groups v e"
    unfolding assms by (rule replayInv_run) (rule engineInv_idle, rule replayInv_idle)
  have E: "submitted e = submissions events"
    unfolding assms by (simp add: submitted_run idle_def)
  have S: "processingOperations (service e) \<Longrightarrow>
        step host e (Submit operation)
          = e\<lparr>service := (service e)\<lparr>operationQueue := operationQueue (service e) @ [operation]\<rparr>,
              submitted := submitted e @ [operation]\<rparr>"
    by (simp add: submit_def Let_def)
  from drain_from_anywhere[OF I, of host now] obtain n where
    n: "let e' = run host e (replicate n (Advance 0 now))
        in loops e' = [] \<and> operationQueue (service e') = []
           \<and> \<not> processingOperations (service e')
           \<and> started e' = submitted e \<and> submitted e' = submitted e"
    by blast
  define e' where "e' = run host e (replicate n (Advance 0 now))"
  from n have d: "loops e' = []" "operationQueue (service e') = []"
      "\<not> processingOperations (service e')" "started e' = submitted e" "submitted e' = submitted e"
    by (simp_all add: e'_def Let_def)
  have R': "replayInv host groups v e'"
    unfolding e'_def by (rule replayInv_run) (rule I, rule R)
  from R' d have a': "applied e' = visitsFrom groups 0 (submitted e)"
    by (simp add: replayInv_def pending_def)
  from R' a' have "vault (service e') = replay host v (visitsFrom groups 0 (submitted e))"
    by (simp add: replayInv_def)
  also have "\<dots> = vault (executeAll host clock 0 (submissions events) (service (idle groups v)))"
    by (simp add: executeAll_vault[of host clock 0 _ _ 0] E idle_def)
  finally have v': "vault (service e')
      = vault (executeAll host clock 0 (submissions events) (service (idle groups v)))" .
  from d a' v' have "let e' = run host e (replicate n (Advance 0 now))
           in loops e' = [] \<and> \<not> processingOperations (service e')
              \<and> operationQueue (service e') = []
              \<and> started e' = submitted e \<and> submitted e' = submitted e
              \<and> applied e' = visitsFrom groups 0 (submitted e)
              \<and> vault (service e')
                  = vault (executeAll host clock 0 (submissions events) (service (idle groups v)))"
    by (simp add: e'_def Let_def)
  then have L: "\<exists>n. let e' = run host e (replicate n (Advance 0 now))
           in loops e' = [] \<and> \<not> processingOperations (service e')
              \<and> operationQueue (service e') = []
              \<and> started e' = submitted e \<and> submitted e' = submitted e
              \<and> applied e' = visitsFrom groups 0 (submitted e)
              \<and> vault (service e')
                  = vault (executeAll host clock 0 (submissions events) (service (idle groups v)))"
    by blast
  from I S have A: "length (loops e) \<le> 1
   \<and> (processingOperations (service e) \<longleftrightarrow> loops e \<noteq> [])
   \<and> submitted e = started e @ operationQueue (service e)
   \<and> sorted (map fst (applied e))
   \<and> (\<forall>(n, op, filePath) \<in> set (applied e). n < length (submitted e) \<and> submitted e ! n = op)
   \<and> (processingOperations (service e) \<longrightarrow>
        step host e (Submit operation)
          = e\<lparr>service := (service e)\<lparr>operationQueue := operationQueue (service e) @ [operation]\<rparr>,
              submitted := submitted e @ [operation]\<rparr>)"
    by (auto simp: engineInv_def nth_append)
  from R have B: "applied e @ pending e = visitsFrom groups 0 (started e)
      \<and> vault (service e) = replay host v (applied e)"
    by (simp add: replayInv_def)
  from A B E L show ?thesis by blast
qed

text \<open>
  In the scenario the second call arrives while the first operation is half way through
  the group; its operation waits in the queue and is taken up by the same activation
  once the first operation has visited all its targets. The record of calls of the vault
  shows the two writes of the first operation before the first write of the second.
\<close>

theorem single_drain_loop_fifo_witness:
  "length (loops overlapped) \<le> 1
   \<and> processingOperations (service overlapped)
   \<and> submitted overlapped = [sayHi, deleteA ''A.canvas'']
   \<and> applied overlapped
       = [(0, sayHi, ''AC1.canvas''), (0, sayHi, ''AC3.canvas''),
          (1, deleteA ''A.canvas'', ''AC1.canvas'')]
   \<and> pending overlapped = [(1, deleteA ''A.canvas'', ''AC3.canvas'')]
   \<and> sorted (map fst (applied overlapped))
   \<and> vault (service overlapped)
       = replay exampleHost (vault scenario)
           [(0, sayHi, ''AC1.canvas''), (0, sayHi, ''AC3.canvas''),
            (1, deleteA ''A.canvas'', ''AC1.canvas'')]
   \<and> journal (vault (service overlapped))
       = [CallRead ''AC1.canvas'', CallModify ''AC1.canvas'' ''doc'',
          CallRead ''AC3.canvas'', CallModify ''AC3.canvas'' ''doc'',
          CallRead ''AC1.canvas'', CallModify ''AC1.canvas'' ''doc-a'']
   \<and> step exampleHost overlapped (Submit sayHi)
       = overlapped\<lparr>service := (service overlapped)
                       \<lparr>operationQueue := operationQueue (service overlapped) @ [sayHi]\<rparr>,
                     submitted := submitted overlapped @ [sayHi]\<rparr>"
proof -
  note T = single_drain_loop_fifo [OF overlapped_def, of sayHi 20 "\<lambda>k. 0"]
  have p: "processingOperations (service overlapped)"
    by code_simp
  have s: "submitted overlapped = [sayHi, deleteA ''A.canvas'']"
    by code_simp
  have a: "applied overlapped
       = [(0, sayHi, ''AC1.canvas''), (0, sayHi, ''AC3.canvas''),
          (1, deleteA ''A.canvas'', ''AC1.canvas'')]"
    by code_simp
  have q: "pending overlapped = [(1, deleteA ''A.canvas'', ''AC3.canvas'')]"
    by code_simp
  have j: "journal (vault (service overlapped))
       = [CallRead ''AC1.canvas'', CallModify ''AC1.canvas'' ''doc'',
          CallRead ''AC3.canvas'', CallModify ''AC3.canvas'' ''doc'',
          CallRead ''AC1.canvas'', CallModify ''AC1.canvas'' ''doc-a'']"
    by code_simp
  from T have "length (loops overlapped) \<le> 1" by (rule conjunct1)
  moreover from T have "sorted (map fst (applied overlapped))" by blast
  moreover from T have "vault (service overlapped)
       = replay exampleHost (vault scenario) (applied overlapped)" by blast
  moreover from T p have "step exampleHost overlapped (Submit sayHi)
       = overlapped\<lparr>service := (service overlapped)
                       \<lparr>operationQueue := operationQueue (service overlapped) @ [sayHi]\<rparr>,
                     submitted := submitted overlapped @ [sayHi]\<rparr>" by blast
  ultimately show ?thesis using p s a q j by simp
qed

end
